theory Spec2Isabelle
  imports Main "HOL-Library.Word"
begin

section \<open>Byte queues in one fixed storage block (QueueManager.cpp)\<close>

text \<open>
  The program keeps up to 64 byte FIFO queues inside one 2048-byte array. The array is
  viewed as a descriptor table, one record of allocator state and a pool of 16-byte
  segments. The model below follows the source function by function. The storage block is
  a record with the three regions of the overlay; every operation takes the block and
  returns the new one. A call that ends in \<open>on_out_of_memory\<close> or
  \<open>on_illegal_operation\<close> (diagnostic, then \<open>exit(1)\<close>) returns \<open>Inl\<close> of the
  fault; an access outside an array, which C++ leaves undefined, returns
  \<open>Inl (OutOfBounds r)\<close> for the region \<open>r\<close> and the model stops there.
\<close>

subsection \<open>Constants\<close>

type_synonym u8 = "8 word"
type_synonym u16 = "16 word"
type_synonym u32 = "32 word"

definition DATA_SIZE :: nat where
  "DATA_SIZE = 2048"

definition MAX_QUEUES :: nat where
  "MAX_QUEUES = 64"

definition DESCRIPTOR_SIZE :: nat where
  "DESCRIPTOR_SIZE = 8"

definition DESCRIPTORS_AREA :: nat where
  "DESCRIPTORS_AREA = MAX_QUEUES * DESCRIPTOR_SIZE"

definition GLOBAL_DATA_SIZE :: nat where
  "GLOBAL_DATA_SIZE = 8"

definition SEG_PAYLOAD_SIZE :: nat where
  "SEG_PAYLOAD_SIZE = 14"

definition SEG_SIZE :: nat where
  "SEG_SIZE = SEG_PAYLOAD_SIZE + 2"

definition SEGMENT_COUNT :: nat where
  "SEGMENT_COUNT = (DATA_SIZE - DESCRIPTORS_AREA - GLOBAL_DATA_SIZE) div SEG_SIZE"

definition INVALID_INDEX :: u16 where
  "INVALID_INDEX = 0xFFFF"

subsection \<open>Structured data\<close>

record GlobalData =
  free_list_head :: u16
  next_unused :: u16
  initialized :: u32

record Q =
  head_segment :: u16
  tail_segment :: u16
  head_offset :: u8
  tail_offset :: u8
  in_use :: u8
  pad :: u8

text \<open>The field \<open>next\<close> of the source is \<open>next_index\<close> here (\<open>next\<close> is a keyword).\<close>

record Segment =
  next_index :: u16
  data :: "u8 list"

record layout =
  descriptors :: "Q list"
  global_data :: GlobalData
  segments :: "Segment list"

text \<open>The array sizes that the C++ types fix.\<close>

definition well_sized :: "layout \<Rightarrow> bool" where
  "well_sized m \<longleftrightarrow>
     length (descriptors m) = MAX_QUEUES \<and>
     length (segments m) = SEGMENT_COUNT \<and>
     (\<forall>sg \<in> set (segments m). length (data sg) = SEG_PAYLOAD_SIZE)"

text \<open>The block at process start: \<open>unsigned char data[2048] = {0}\<close>.\<close>

definition zeroed :: layout where
  "zeroed =
     \<lparr>descriptors = replicate MAX_QUEUES
        \<lparr>head_segment = 0, tail_segment = 0, head_offset = 0, tail_offset = 0,
         in_use = 0, pad = 0\<rparr>,
      global_data = \<lparr>free_list_head = 0, next_unused = 0, initialized = 0\<rparr>,
      segments = replicate SEGMENT_COUNT
        \<lparr>next_index = 0, data = replicate SEG_PAYLOAD_SIZE 0\<rparr>\<rparr>"

subsection \<open>Faults\<close>

datatype region = Descriptors | Segments | Payload

datatype fault = OutOfMemory | IllegalOperation | OutOfBounds region

type_synonym 'a result = "fault + 'a"

definition on_out_of_memory :: "'a result" where
  "on_out_of_memory = Inl OutOfMemory"

definition on_illegal_operation :: "'a result" where
  "on_illegal_operation = Inl IllegalOperation"

definition and_then :: "'a result \<Rightarrow> ('a \<Rightarrow> 'b result) \<Rightarrow> 'b result" where
  "and_then r f = (case r of Inl e \<Rightarrow> Inl e | Inr x \<Rightarrow> f x)"

subsection \<open>Access to segments and descriptors\<close>

text \<open>\<open>seg(idx)\<close> read; the two stores are the writes through the reference it returns.\<close>

definition seg :: "layout \<Rightarrow> u16 \<Rightarrow> Segment result" where
  "seg m idx =
     (if unat idx < SEGMENT_COUNT then Inr (segments m ! unat idx)
      else Inl (OutOfBounds Segments))"

definition set_next :: "layout \<Rightarrow> u16 \<Rightarrow> u16 \<Rightarrow> layout result" where
  "set_next m idx v =
     and_then (seg m idx) (\<lambda>sg.
       Inr (m\<lparr>segments := (segments m)[unat idx := sg\<lparr>next_index := v\<rparr>]\<rparr>))"

definition get_data :: "layout \<Rightarrow> u16 \<Rightarrow> u8 \<Rightarrow> u8 result" where
  "get_data m idx off =
     and_then (seg m idx) (\<lambda>sg.
       if unat off < SEG_PAYLOAD_SIZE then Inr (data sg ! unat off)
       else Inl (OutOfBounds Payload))"

definition set_data :: "layout \<Rightarrow> u16 \<Rightarrow> u8 \<Rightarrow> u8 \<Rightarrow> layout result" where
  "set_data m idx off b =
     and_then (seg m idx) (\<lambda>sg.
       if unat off < SEG_PAYLOAD_SIZE
       then Inr (m\<lparr>segments := (segments m)[unat idx := sg\<lparr>data := (data sg)[unat off := b]\<rparr>]\<rparr>)
       else Inl (OutOfBounds Payload))"

definition q_update :: "layout \<Rightarrow> nat \<Rightarrow> (Q \<Rightarrow> Q) \<Rightarrow> layout" where
  "q_update m i f = m\<lparr>descriptors := (descriptors m)[i := f (descriptors m ! i)]\<rparr>"

subsection \<open>Segment allocator\<close>

definition allocate_segment :: "layout \<Rightarrow> (u16 \<times> layout) result" where
  "allocate_segment m =
     (let m1 = (if initialized (global_data m) = 0
                then m\<lparr>global_data := (global_data m)
                       \<lparr>initialized := 1, free_list_head := INVALID_INDEX, next_unused := 0\<rparr>\<rparr>
                else m);
          g = global_data m1
      in if free_list_head g \<noteq> INVALID_INDEX then
           and_then (seg m1 (free_list_head g)) (\<lambda>sg.
             Inr (free_list_head g, m1\<lparr>global_data := g\<lparr>free_list_head := next_index sg\<rparr>\<rparr>))
         else if unat (next_unused g) < SEGMENT_COUNT then
           Inr (next_unused g, m1\<lparr>global_data := g\<lparr>next_unused := next_unused g + 1\<rparr>\<rparr>)
         else on_out_of_memory)"

definition free_segment :: "layout \<Rightarrow> u16 \<Rightarrow> layout result" where
  "free_segment m idx =
     and_then (set_next m idx (free_list_head (global_data m))) (\<lambda>m1.
       Inr (m1\<lparr>global_data := (global_data m1)\<lparr>free_list_head := idx\<rparr>\<rparr>))"

subsection \<open>Queue lifecycle\<close>

text \<open>
  A handle \<open>Q*\<close> is \<open>None\<close> for the null pointer and \<open>Some i\<close> for the address of
  descriptor \<open>i\<close>; \<open>i \<ge> MAX_QUEUES\<close> is a pointer past the table.
\<close>

function create_scan :: "layout \<Rightarrow> nat \<Rightarrow> (nat option \<times> layout) result" where
  "create_scan m i =
     (if i < MAX_QUEUES then
        (if in_use (descriptors m ! i) = 0 then
           Inr (Some i, q_update m i (\<lambda>d. d\<lparr>in_use := 1, head_segment := INVALID_INDEX,
                  tail_segment := INVALID_INDEX, head_offset := 0, tail_offset := 0\<rparr>))
         else create_scan m (i + 1))
      else on_out_of_memory)"
  by pat_completeness auto
termination
  by (relation "measure (\<lambda>(m, i). MAX_QUEUES - i)") auto

definition create_queue :: "layout \<Rightarrow> (nat option \<times> layout) result" where
  "create_queue m = create_scan m 0"

text \<open>
  The loop of \<open>destroy_queue\<close> follows \<open>next\<close> links until the sentinel; on a chain
  with a cycle it need not end, so its result is an option and \<open>None\<close> is a run that
  does not return.
\<close>

partial_function (option) destroy_walk :: "layout \<Rightarrow> u16 \<Rightarrow> layout result option" where
  "destroy_walk m seg_idx =
     (if seg_idx \<noteq> INVALID_INDEX then
        (case seg m seg_idx of
           Inl e \<Rightarrow> Some (Inl e)
         | Inr sg \<Rightarrow>
             (case free_segment m seg_idx of
                Inl e \<Rightarrow> Some (Inl e)
              | Inr m1 \<Rightarrow> destroy_walk m1 (next_index sg)))
      else Some (Inr m))"

definition destroy_queue :: "layout \<Rightarrow> nat option \<Rightarrow> layout result option" where
  "destroy_queue m q =
     (case q of
        None \<Rightarrow> Some on_illegal_operation
      | Some i \<Rightarrow>
          if \<not> i < MAX_QUEUES then Some on_illegal_operation
          else if in_use (descriptors m ! i) = 0 then Some on_illegal_operation
          else (case destroy_walk m (head_segment (descriptors m ! i)) of
                  None \<Rightarrow> None
                | Some (Inl e) \<Rightarrow> Some (Inl e)
                | Some (Inr m1) \<Rightarrow> Some (Inr (q_update m1 i (\<lambda>d. d\<lparr>in_use := 0\<rparr>)))))"

subsection \<open>Enqueue and dequeue\<close>

text \<open>Lines 159 to 165: the first segment of an empty queue.\<close>

definition enqueue_first :: "layout \<Rightarrow> nat \<Rightarrow> layout result" where
  "enqueue_first m i =
     (if tail_segment (descriptors m ! i) = INVALID_INDEX then
        and_then (allocate_segment m) (\<lambda>(new_seg, m1).
          and_then (set_next m1 new_seg INVALID_INDEX) (\<lambda>m2.
            Inr (q_update m2 i (\<lambda>d. d\<lparr>head_segment := new_seg, tail_segment := new_seg,
                   head_offset := 0, tail_offset := 0\<rparr>))))
      else Inr m)"

text \<open>Lines 167 and 168: the store at the write cursor, which then advances.\<close>

definition enqueue_write :: "layout \<Rightarrow> nat \<Rightarrow> u8 \<Rightarrow> layout result" where
  "enqueue_write m i b =
     (let d = descriptors m ! i
      in and_then (set_data m (tail_segment d) (tail_offset d) b) (\<lambda>m1.
           Inr (q_update m1 i (\<lambda>d. d\<lparr>tail_offset := tail_offset d + 1\<rparr>))))"

text \<open>Lines 171 to 177: a full tail segment gets a successor at once; \<open>t\<close> is the
  segment the reference \<open>tail\<close> was bound to.\<close>

definition enqueue_grow :: "layout \<Rightarrow> nat \<Rightarrow> u16 \<Rightarrow> layout result" where
  "enqueue_grow m i t =
     (if unat (tail_offset (descriptors m ! i)) = SEG_PAYLOAD_SIZE then
        and_then (allocate_segment m) (\<lambda>(new_seg, m1).
          and_then (set_next m1 new_seg INVALID_INDEX) (\<lambda>m2.
            and_then (set_next m2 t new_seg) (\<lambda>m3.
              Inr (q_update m3 i (\<lambda>d. d\<lparr>tail_segment := new_seg, tail_offset := 0\<rparr>)))))
      else Inr m)"

definition enqueue_byte :: "layout \<Rightarrow> nat option \<Rightarrow> u8 \<Rightarrow> layout result" where
  "enqueue_byte m q b =
     (case q of
        None \<Rightarrow> on_illegal_operation
      | Some i \<Rightarrow>
          if \<not> i < MAX_QUEUES then Inl (OutOfBounds Descriptors)
          else if in_use (descriptors m ! i) = 0 then on_illegal_operation
          else and_then (enqueue_first m i) (\<lambda>m1.
                 and_then (enqueue_write m1 i b) (\<lambda>m2.
                   enqueue_grow m2 i (tail_segment (descriptors m1 ! i)))))"

text \<open>Lines 190 to 204, after the read: \<open>h\<close> is the segment the reference \<open>head\<close>
  was bound to, \<open>m\<close> the block with the read cursor already advanced.\<close>

definition dequeue_settle :: "layout \<Rightarrow> nat \<Rightarrow> u16 \<Rightarrow> layout result" where
  "dequeue_settle m i h =
     (let d = descriptors m ! i
      in if head_segment d = tail_segment d \<and> head_offset d = tail_offset d then
           and_then (free_segment m (head_segment d)) (\<lambda>m1.
             Inr (q_update m1 i (\<lambda>d. d\<lparr>head_segment := INVALID_INDEX,
                    tail_segment := INVALID_INDEX, head_offset := 0, tail_offset := 0\<rparr>)))
         else if unat (head_offset d) = SEG_PAYLOAD_SIZE then
           and_then (seg m h) (\<lambda>sg.
             free_segment
               (q_update m i (\<lambda>d. d\<lparr>head_segment := next_index sg, head_offset := 0\<rparr>))
               (head_segment d))
         else Inr m)"

definition dequeue_byte :: "layout \<Rightarrow> nat option \<Rightarrow> (u8 \<times> layout) result" where
  "dequeue_byte m q =
     (case q of
        None \<Rightarrow> on_illegal_operation
      | Some i \<Rightarrow>
          if \<not> i < MAX_QUEUES then Inl (OutOfBounds Descriptors)
          else if in_use (descriptors m ! i) = 0 then on_illegal_operation
          else if head_segment (descriptors m ! i) = INVALID_INDEX then on_illegal_operation
          else (let h = head_segment (descriptors m ! i)
                in and_then (get_data m h (head_offset (descriptors m ! i))) (\<lambda>v.
                     and_then
                       (dequeue_settle
                          (q_update m i (\<lambda>d. d\<lparr>head_offset := head_offset d + 1\<rparr>)) i h)
                       (\<lambda>m1. Inr (v, m1)))))"

text \<open>Sequences of calls on one queue, stopping at the first fault.\<close>

fun enqueue_bytes :: "layout \<Rightarrow> nat option \<Rightarrow> u8 list \<Rightarrow> layout result" where
  "enqueue_bytes m q [] = Inr m"
| "enqueue_bytes m q (b # bs) = and_then (enqueue_byte m q b) (\<lambda>m1. enqueue_bytes m1 q bs)"

fun dequeue_bytes :: "layout \<Rightarrow> nat option \<Rightarrow> nat \<Rightarrow> (u8 list \<times> layout) result" where
  "dequeue_bytes m q 0 = Inr ([], m)"
| "dequeue_bytes m q (Suc n) =
     and_then (dequeue_byte m q) (\<lambda>(v, m1).
       and_then (dequeue_bytes m1 q n) (\<lambda>(vs, m2). Inr (v # vs, m2)))"

subsection \<open>Segment chains and what a queue holds\<close>

text \<open>
  \<open>chain sgs p cs\<close>: following the \<open>next\<close> links from index \<open>p\<close> visits exactly
  the segments \<open>cs\<close>, all of them inside the pool, and then reaches the sentinel.
\<close>

fun chain :: "Segment list \<Rightarrow> u16 \<Rightarrow> u16 list \<Rightarrow> bool" where
  "chain sgs p [] \<longleftrightarrow> p = INVALID_INDEX"
| "chain sgs p (c # cs) \<longleftrightarrow>
     p = c \<and> unat c < SEGMENT_COUNT \<and> chain sgs (next_index (sgs ! unat c)) cs"

text \<open>
  \<open>payload\<close> is the concatenation of the payloads along a chain. \<open>owned m S\<close> says that
  the allocator leaves the segments \<open>S\<close> alone: once initialised, its free list is a
  chain to the sentinel that shares no segment with \<open>S\<close>, and every segment of \<open>S\<close>
  and of the free list lies below the bump pointer, so no allocation returns a segment of
  \<open>S\<close> or the same segment twice. \<open>holds m i cs bs\<close> reads queue \<open>i\<close> as the byte
  list \<open>bs\<close>: its chain is \<open>cs\<close>, its tail is the last segment, and \<open>bs\<close> are the
  payload bytes from the read cursor in the first segment up to the write cursor in the
  last. \<open>queue_view\<close> is the same reading while the write cursor may stand at 14, as it
  does inside \<open>enqueue_byte\<close>.
\<close>

definition payload :: "Segment list \<Rightarrow> u16 list \<Rightarrow> u8 list" where
  "payload sgs cs = concat (map (\<lambda>c. data (sgs ! unat c)) cs)"

definition owned :: "layout \<Rightarrow> u16 set \<Rightarrow> bool" where
  "owned m S \<longleftrightarrow>
     (S \<noteq> {} \<longrightarrow> initialized (global_data m) \<noteq> 0) \<and>
     (initialized (global_data m) \<noteq> 0 \<longrightarrow>
        (\<forall>c\<in>S. unat c < unat (next_unused (global_data m))) \<and>
        (\<exists>fl. chain (segments m) (free_list_head (global_data m)) fl \<and> set fl \<inter> S = {} \<and>
              (\<forall>c\<in>set fl. unat c < unat (next_unused (global_data m)))))"

definition queue_view :: "layout \<Rightarrow> nat \<Rightarrow> u16 list \<Rightarrow> u8 list \<Rightarrow> bool" where
  "queue_view m i cs bs \<longleftrightarrow>
     well_sized m \<and> i < MAX_QUEUES \<and> in_use (descriptors m ! i) \<noteq> 0 \<and>
     chain (segments m) (head_segment (descriptors m ! i)) cs \<and>
     tail_segment (descriptors m ! i) = last (INVALID_INDEX # cs) \<and>
     owned m (set cs) \<and>
     (cs = [] \<longrightarrow> bs = []) \<and>
     (cs \<noteq> [] \<longrightarrow>
        unat (head_offset (descriptors m ! i)) < SEG_PAYLOAD_SIZE \<and>
        unat (tail_offset (descriptors m ! i)) \<le> SEG_PAYLOAD_SIZE \<and>
        unat (head_offset (descriptors m ! i)) \<le>
          SEG_PAYLOAD_SIZE * (length cs - 1) + unat (tail_offset (descriptors m ! i)) \<and>
        bs = drop (unat (head_offset (descriptors m ! i)))
               (take (SEG_PAYLOAD_SIZE * (length cs - 1) + unat (tail_offset (descriptors m ! i)))
                  (payload (segments m) cs)))"

definition holds :: "layout \<Rightarrow> nat \<Rightarrow> u16 list \<Rightarrow> u8 list \<Rightarrow> bool" where
  "holds m i cs bs \<longleftrightarrow>
     queue_view m i cs bs \<and>
     (cs \<noteq> [] \<longrightarrow> unat (tail_offset (descriptors m ! i)) < SEG_PAYLOAD_SIZE)"

subsection \<open>States the public operations can reach\<close>

text \<open>
  From the zeroed block, any of the four public operations with any arguments, as long as
  the call returns.
\<close>

inductive reachable :: "layout \<Rightarrow> bool" where
  start: "reachable zeroed"
| create: "reachable m \<Longrightarrow> create_queue m = Inr (q, m') \<Longrightarrow> reachable m'"
| destroy: "reachable m \<Longrightarrow> destroy_queue m q = Some (Inr m') \<Longrightarrow> reachable m'"
| enqueue: "reachable m \<Longrightarrow> enqueue_byte m q b = Inr m' \<Longrightarrow> reachable m'"
| dequeue: "reachable m \<Longrightarrow> dequeue_byte m q = Inr (v, m') \<Longrightarrow> reachable m'"

definition cursors_ok :: "Q \<Rightarrow> bool" where
  "cursors_ok d \<longleftrightarrow>
     (in_use d \<noteq> 0 \<longrightarrow>
        unat (head_offset d) < SEG_PAYLOAD_SIZE \<and> unat (tail_offset d) < SEG_PAYLOAD_SIZE)"

definition cursors_in_payload :: "layout \<Rightarrow> bool" where
  "cursors_in_payload m \<longleftrightarrow>
     length (descriptors m) = MAX_QUEUES \<and> (\<forall>i<MAX_QUEUES. cursors_ok (descriptors m ! i))"

subsection \<open>Sample blocks\<close>

text \<open>A block whose 64 descriptors are all claimed and whose 95 segments are all handed out.\<close>

definition exhausted :: layout where
  "exhausted =
     zeroed\<lparr>descriptors := replicate MAX_QUEUES
               \<lparr>head_segment = INVALID_INDEX, tail_segment = INVALID_INDEX, head_offset = 0,
                tail_offset = 0, in_use = 1, pad = 0\<rparr>,
             global_data := \<lparr>free_list_head = INVALID_INDEX, next_unused = 95, initialized = 1\<rparr>\<rparr>"

text \<open>The block after one \<open>create_queue\<close> at process start: slot 0 holds an empty queue.\<close>

definition one_queue :: layout where
  "one_queue =
     q_update zeroed 0 (\<lambda>d. d\<lparr>in_use := 1, head_segment := INVALID_INDEX,
       tail_segment := INVALID_INDEX, head_offset := 0, tail_offset := 0\<rparr>)"

text \<open>What a call returned, \<open>None\<close> when it ended the process.\<close>

definition returned :: "'a result \<Rightarrow> 'a option" where
  "returned r = (case r of Inl e \<Rightarrow> None | Inr x \<Rightarrow> Some x)"

text \<open>
  One queue taken through a whole segment payload: 14 bytes enqueued into the fresh queue
  of slot 0 (\<open>filled14\<close>), 13 of them dequeued (\<open>one_left14\<close>), then the last one
  (\<open>drained14\<close>).
\<close>

definition bytes14 :: "u8 list" where
  "bytes14 = [1, 2, 3, 4, 5, 6, 7, 8, 9, 10, 11, 12, 13, 14]"

definition filled14 :: layout where
  "filled14 =
     \<lparr>descriptors = (descriptors zeroed)
        [0 := \<lparr>head_segment = 0, tail_segment = 1, head_offset = 0, tail_offset = 0,
               in_use = 1, pad = 0\<rparr>],
      global_data = \<lparr>free_list_head = INVALID_INDEX, next_unused = 2, initialized = 1\<rparr>,
      segments = (segments zeroed)
        [0 := \<lparr>next_index = 1, data = bytes14\<rparr>,
         1 := \<lparr>next_index = INVALID_INDEX, data = replicate SEG_PAYLOAD_SIZE 0\<rparr>]\<rparr>"

definition one_left14 :: layout where
  "one_left14 = q_update filled14 0 (\<lambda>d. d\<lparr>head_offset := 13\<rparr>)"

definition drained14 :: layout where
  "drained14 =
     \<lparr>descriptors = (descriptors zeroed)
        [0 := \<lparr>head_segment = 1, tail_segment = 1, head_offset = 0, tail_offset = 0,
               in_use = 1, pad = 0\<rparr>],
      global_data = \<lparr>free_list_head = 0, next_unused = 2, initialized = 1\<rparr>,
      segments = (segments zeroed)
        [0 := \<lparr>next_index = INVALID_INDEX, data = bytes14\<rparr>,
         1 := \<lparr>next_index = INVALID_INDEX, data = replicate SEG_PAYLOAD_SIZE 0\<rparr>]\<rparr>"

text \<open>\<open>filled14\<close> after one more byte, 15, has been enqueued.\<close>

definition filled15 :: layout where
  "filled15 =
     filled14\<lparr>descriptors := (descriptors filled14)
        [0 := (descriptors filled14 ! 0)\<lparr>tail_offset := 1\<rparr>],
      segments := (segments filled14)
        [1 := \<lparr>next_index = INVALID_INDEX, data = 15 # replicate 13 0\<rparr>]\<rparr>"

text \<open>
  The calls of \<open>main\<close>, lines 211 to 228, from the zeroed block; the result is the
  sequence of bytes it prints. \<open>main_part\<close> runs up to the second pair of dequeues.
\<close>

definition main_part :: "(u8 list \<times> nat option \<times> nat option \<times> layout) result" where
  "main_part =
     and_then (create_queue zeroed) (\<lambda>(q0, m).
     and_then (enqueue_byte m q0 0) (\<lambda>m.
     and_then (enqueue_byte m q0 1) (\<lambda>m.
     and_then (create_queue m) (\<lambda>(q1, m).
     and_then (enqueue_byte m q1 3) (\<lambda>m.
     and_then (enqueue_byte m q0 2) (\<lambda>m.
     and_then (enqueue_byte m q1 4) (\<lambda>m.
     and_then (dequeue_bytes m q0 2) (\<lambda>(out1, m).
     and_then (enqueue_byte m q0 5) (\<lambda>m.
     and_then (enqueue_byte m q1 6) (\<lambda>m.
     and_then (dequeue_bytes m q0 2) (\<lambda>(out2, m).
       Inr (out1 @ out2, q0, q1, m))))))))))))"

definition main_run :: "(u8 list \<times> layout) result option" where
  "main_run =
     (case main_part of
        Inl e \<Rightarrow> Some (Inl e)
      | Inr (out12, q0, q1, m) \<Rightarrow>
          (case destroy_queue m q0 of
             None \<Rightarrow> None
           | Some (Inl e) \<Rightarrow> Some (Inl e)
           | Some (Inr m1) \<Rightarrow>
               (case dequeue_bytes m1 q1 3 of
                  Inl e \<Rightarrow> Some (Inl e)
                | Inr (out3, m2) \<Rightarrow>
                    (case destroy_queue m2 q1 of
                       None \<Rightarrow> None
                     | Some (Inl e) \<Rightarrow> Some (Inl e)
                     | Some (Inr m3) \<Rightarrow> Some (Inr (out12 @ out3, m3))))))"

text \<open>
  \<open>drained14\<close> after 14 more \<open>dequeue_byte\<close> calls on the drained queue (\<open>stale14\<close>):
  the head is the sentinel, the tail still names segment 1, and segment 1 is on the free
  list. \<open>stale_tail_run\<close> then creates a second queue, enqueues 50 into it, enqueues 60
  into the first queue and dequeues from the second.
\<close>

definition stale14 :: layout where
  "stale14 =
     \<lparr>descriptors = (descriptors zeroed)
        [0 := \<lparr>head_segment = INVALID_INDEX, tail_segment = 1, head_offset = 0, tail_offset = 0,
               in_use = 1, pad = 0\<rparr>],
      global_data = \<lparr>free_list_head = 1, next_unused = 2, initialized = 1\<rparr>,
      segments = (segments zeroed)
        [0 := \<lparr>next_index = INVALID_INDEX, data = bytes14\<rparr>,
         1 := \<lparr>next_index = 0, data = replicate SEG_PAYLOAD_SIZE 0\<rparr>]\<rparr>"

definition stale_tail_run :: "(u8 \<times> layout) result" where
  "stale_tail_run =
     and_then (create_queue stale14) (\<lambda>(q1, m).
     and_then (enqueue_byte m q1 50) (\<lambda>m.
     and_then (enqueue_byte m (Some 0) 60) (\<lambda>m.
       dequeue_byte m q1)))"

section \<open>Properties\<close>

declare create_scan.simps [simp del]

lemmas size_defs = DATA_SIZE_def MAX_QUEUES_def DESCRIPTOR_SIZE_def DESCRIPTORS_AREA_def
  GLOBAL_DATA_SIZE_def SEG_PAYLOAD_SIZE_def SEG_SIZE_def SEGMENT_COUNT_def

lemma SEGMENT_COUNT_eq: "SEGMENT_COUNT = 95"
  by (simp add: size_defs)

lemma well_sized_zeroed: "well_sized zeroed"
  by (simp add: well_sized_def zeroed_def)

lemma well_sized_one_queue: "well_sized one_queue"
  by (simp add: well_sized_def zeroed_def one_queue_def q_update_def)

subsection \<open>Region sizes\<close>

text \<open>
  C4, as stated: the three regions fill the 2048 bytes exactly. They do not: the segment
  count is a quotient rounded down, and the regions add up to 2040.
\<close>

theorem region_sum_counterexample:
  "DESCRIPTORS_AREA + GLOBAL_DATA_SIZE + SEGMENT_COUNT * SEG_SIZE \<noteq> DATA_SIZE"
  by (simp add: size_defs)

text \<open>
  C4, amended: 64 descriptors of 8 bytes, 8 bytes of allocator state and 95 segments of
  16 bytes take 2040 of the 2048 bytes; 8 bytes, less than one segment, stay unused.
\<close>

theorem region_sum_slack:
  "DESCRIPTORS_AREA = 64 * 8 \<and> GLOBAL_DATA_SIZE = 8 \<and> SEGMENT_COUNT = 95 \<and> SEG_SIZE = 16 \<and>
   DESCRIPTORS_AREA + GLOBAL_DATA_SIZE + SEGMENT_COUNT * SEG_SIZE + 8 = DATA_SIZE \<and>
   DATA_SIZE = 2048 \<and> 8 < SEG_SIZE"
  by (simp add: size_defs)

subsection \<open>The descriptor scan\<close>

lemma create_scan_finds:
  assumes "i < MAX_QUEUES" and "in_use (descriptors m ! i) = 0"
  shows "k \<le> i \<Longrightarrow> (\<forall>j. k \<le> j \<and> j < i \<longrightarrow> in_use (descriptors m ! j) \<noteq> 0) \<Longrightarrow>
         create_scan m k =
           Inr (Some i, q_update m i (\<lambda>d. d\<lparr>in_use := 1, head_segment := INVALID_INDEX,
                  tail_segment := INVALID_INDEX, head_offset := 0, tail_offset := 0\<rparr>))"
proof (induction "i - k" arbitrary: k)
  case 0
  then have "k = i" by simp
  with assms show ?case by (simp add: create_scan.simps [of m i])
next
  case (Suc n)
  then have lt: "k < i" by simp
  with Suc.prems have busy: "in_use (descriptors m ! k) \<noteq> 0" by simp
  from lt assms(1) have "k < MAX_QUEUES" by simp
  with busy have "create_scan m k = create_scan m (k + 1)"
    by (simp add: create_scan.simps [of m k])
  moreover have "create_scan m (k + 1) =
           Inr (Some i, q_update m i (\<lambda>d. d\<lparr>in_use := 1, head_segment := INVALID_INDEX,
                  tail_segment := INVALID_INDEX, head_offset := 0, tail_offset := 0\<rparr>))"
    using Suc.hyps(2) Suc.prems lt by (intro Suc.hyps(1)) auto
  ultimately show ?case by simp
qed

lemma create_scan_full:
  "(\<forall>j. k \<le> j \<and> j < MAX_QUEUES \<longrightarrow> in_use (descriptors m ! j) \<noteq> 0) \<Longrightarrow>
   create_scan m k = Inl OutOfMemory"
proof (induction "MAX_QUEUES - k" arbitrary: k)
  case 0
  then have "\<not> k < MAX_QUEUES" by simp
  then show ?case by (simp add: create_scan.simps [of m k] on_out_of_memory_def)
next
  case (Suc n)
  then have lt: "k < MAX_QUEUES" by simp
  with Suc.prems have "create_scan m k = create_scan m (k + 1)"
    by (simp add: create_scan.simps [of m k])
  moreover have "create_scan m (k + 1) = Inl OutOfMemory"
    using Suc.hyps(2) Suc.prems by (intro Suc.hyps(1)) auto
  ultimately show ?case by simp
qed

text \<open>
  C8: when some slot has \<open>in_use = 0\<close>, \<open>create_queue\<close> returns the handle of the
  lowest such slot \<open>i\<close>; that slot gets \<open>in_use = 1\<close>, head and tail at the sentinel
  and both cursors 0; every other slot, the allocator state and the segments stay as
  they were.
\<close>

theorem create_queue_lowest_free:
  assumes "well_sized m" and "i < MAX_QUEUES" and "in_use (descriptors m ! i) = 0"
    and "\<forall>j<i. in_use (descriptors m ! j) \<noteq> 0"
  shows "\<exists>m'. create_queue m = Inr (Some i, m') \<and>
           descriptors m' ! i = (descriptors m ! i)\<lparr>in_use := 1, head_segment := INVALID_INDEX,
              tail_segment := INVALID_INDEX, head_offset := 0, tail_offset := 0\<rparr> \<and>
           (\<forall>j. j \<noteq> i \<longrightarrow> descriptors m' ! j = descriptors m ! j) \<and>
           length (descriptors m') = length (descriptors m) \<and>
           global_data m' = global_data m \<and> segments m' = segments m"
proof -
  have "create_queue m =
           Inr (Some i, q_update m i (\<lambda>d. d\<lparr>in_use := 1, head_segment := INVALID_INDEX,
                  tail_segment := INVALID_INDEX, head_offset := 0, tail_offset := 0\<rparr>))"
    unfolding create_queue_def using assms by (intro create_scan_finds) auto
  moreover from assms have "i < length (descriptors m)" by (simp add: well_sized_def)
  ultimately show ?thesis by (simp add: q_update_def)
qed

theorem create_queue_lowest_free_witness:
  "well_sized one_queue \<and> (1::nat) < MAX_QUEUES \<and> in_use (descriptors one_queue ! 1) = 0 \<and>
   in_use (descriptors one_queue ! 0) \<noteq> 0 \<and>
   (\<exists>m'. create_queue one_queue = Inr (Some 1, m') \<and>
      in_use (descriptors m' ! 1) = 1 \<and> head_segment (descriptors m' ! 1) = INVALID_INDEX \<and>
      tail_segment (descriptors m' ! 1) = INVALID_INDEX \<and>
      descriptors m' ! 0 = descriptors one_queue ! 0)"
proof -
  have a: "(1::nat) < MAX_QUEUES" by (simp add: MAX_QUEUES_def)
  have b: "in_use (descriptors one_queue ! 1) = 0"
    by (simp add: one_queue_def q_update_def zeroed_def MAX_QUEUES_def)
  have c: "in_use (descriptors one_queue ! 0) \<noteq> 0"
    by (simp add: one_queue_def q_update_def zeroed_def MAX_QUEUES_def)
  then have d: "\<forall>j<1. in_use (descriptors one_queue ! j) \<noteq> 0" by simp
  from create_queue_lowest_free [OF well_sized_one_queue a b d]
  obtain m' where "create_queue one_queue = Inr (Some 1, m')"
    and "descriptors m' ! 1 = (descriptors one_queue ! 1)\<lparr>in_use := 1,
           head_segment := INVALID_INDEX, tail_segment := INVALID_INDEX,
           head_offset := 0, tail_offset := 0\<rparr>"
    and "\<forall>j. j \<noteq> 1 \<longrightarrow> descriptors m' ! j = descriptors one_queue ! j"
    by blast
  then show ?thesis using well_sized_one_queue a b c by auto
qed

subsection \<open>Capacity exhaustion\<close>

text \<open>
  C6: \<open>create_queue\<close> with all 64 slots in use, and \<open>allocate_segment\<close> of an
  initialised allocator with an empty free list and the bump pointer at the segment
  count, both end in the out-of-memory fault: the call returns nothing.
\<close>

theorem capacity_exhaustion_fatal:
  "((\<forall>j<MAX_QUEUES. in_use (descriptors m ! j) \<noteq> 0) \<longrightarrow> create_queue m = Inl OutOfMemory) \<and>
   (initialized (global_data m) \<noteq> 0 \<and> free_list_head (global_data m) = INVALID_INDEX \<and>
    \<not> unat (next_unused (global_data m)) < SEGMENT_COUNT \<longrightarrow>
      allocate_segment m = Inl OutOfMemory)"
proof (intro conjI impI)
  assume "\<forall>j<MAX_QUEUES. in_use (descriptors m ! j) \<noteq> 0"
  then show "create_queue m = Inl OutOfMemory"
    unfolding create_queue_def by (intro create_scan_full) auto
next
  assume "initialized (global_data m) \<noteq> 0 \<and> free_list_head (global_data m) = INVALID_INDEX \<and>
    \<not> unat (next_unused (global_data m)) < SEGMENT_COUNT"
  then show "allocate_segment m = Inl OutOfMemory"
    by (simp add: allocate_segment_def on_out_of_memory_def)
qed

theorem capacity_exhaustion_fatal_witness:
  "list_all (\<lambda>d. in_use d \<noteq> 0) (descriptors exhausted) \<and>
   length (descriptors exhausted) = MAX_QUEUES \<and>
   initialized (global_data exhausted) \<noteq> 0 \<and>
   free_list_head (global_data exhausted) = INVALID_INDEX \<and>
   \<not> unat (next_unused (global_data exhausted)) < SEGMENT_COUNT \<and>
   create_queue exhausted = Inl OutOfMemory \<and> allocate_segment exhausted = Inl OutOfMemory"
  using capacity_exhaustion_fatal [of exhausted]
  by (simp add: exhausted_def zeroed_def SEGMENT_COUNT_eq list_all_length)

subsection \<open>A whole segment payload, enqueued and dequeued\<close>

lemma run_create: "create_queue zeroed = Inr (Some 0, one_queue)"
  by code_simp

lemma run_fill: "enqueue_bytes one_queue (Some 0) bytes14 = Inr filled14"
  by code_simp

lemma run_13: "dequeue_bytes filled14 (Some 0) 13 = Inr (butlast bytes14, one_left14)"
  by code_simp

lemma run_last: "dequeue_byte one_left14 (Some 0) = Inr (last bytes14, drained14)"
  by code_simp

lemma run_14: "dequeue_bytes filled14 (Some 0) 14 = Inr (bytes14, drained14)"
  by code_simp

lemma run_extra:
  "dequeue_byte drained14 (Some 0) =
     Inr (data (segments drained14 ! 1) ! 0, q_update drained14 0 (\<lambda>d. d\<lparr>head_offset := 1\<rparr>))"
  by code_simp

lemma drained14_descriptor:
  "descriptors drained14 ! 0 =
     \<lparr>head_segment = 1, tail_segment = 1, head_offset = 0, tail_offset = 0, in_use = 1, pad = 0\<rparr>"
  by (simp add: drained14_def zeroed_def MAX_QUEUES_def)

text \<open>
  C2, evaluated where it fails: the queue of slot 0 holds the 14 bytes of one full segment.
  After 13 calls it holds one byte; the call that removes it returns that byte and leaves
  head and tail at segment 1, not at the sentinel.
\<close>

theorem dequeue_last_byte_of_full_segment:
  "dequeue_bytes filled14 (Some 0) 13 = Inr (butlast bytes14, one_left14) \<and>
   dequeue_byte one_left14 (Some 0) = Inr (last bytes14, drained14) \<and>
   head_segment (descriptors drained14 ! 0) \<noteq> INVALID_INDEX \<and>
   tail_segment (descriptors drained14 ! 0) \<noteq> INVALID_INDEX"
  using run_13 run_last by (simp add: drained14_descriptor INVALID_INDEX_def)

text \<open>
  C3, evaluated where it fails: after the 14 bytes enqueued have all been dequeued, the
  queue holds nothing, and one more \<open>dequeue_byte\<close> returns a byte (0) to the caller.
\<close>

theorem dequeue_on_drained_queue_returns:
  "enqueue_bytes one_queue (Some 0) bytes14 = Inr filled14 \<and>
   dequeue_bytes filled14 (Some 0) (length bytes14) = Inr (bytes14, drained14) \<and>
   map_option fst (returned (dequeue_byte drained14 (Some 0))) = Some 0"
proof -
  have "length bytes14 = 14" by (simp add: bytes14_def)
  with run_14 have a: "dequeue_bytes filled14 (Some 0) (length bytes14) = Inr (bytes14, drained14)"
    by (simp only:)
  have "data (segments drained14 ! 1) ! 0 = 0"
    by (simp add: drained14_def zeroed_def SEGMENT_COUNT_eq SEG_PAYLOAD_SIZE_def)
  then have b: "map_option fst (returned (dequeue_byte drained14 (Some 0))) = Some 0"
    by (simp add: run_extra returned_def)
  from run_fill a b show ?thesis by blast
qed

text \<open>
  C10: create a queue, enqueue exactly 14 bytes, dequeue 14 times. All 14 bytes have come
  out, so the queue holds none; its head and tail are both segment 1 (not the sentinel),
  the segment allocated when the first one filled up and never written, with both cursors
  0. One more \<open>dequeue_byte\<close> is no illegal-operation fault: it returns byte 0 of that
  segment's payload and moves the read cursor to 1.
\<close>

theorem drained_queue_keeps_segment:
  "create_queue zeroed = Inr (Some 0, one_queue) \<and>
   length bytes14 = SEG_PAYLOAD_SIZE \<and>
   enqueue_bytes one_queue (Some 0) bytes14 = Inr filled14 \<and>
   dequeue_bytes filled14 (Some 0) 14 = Inr (bytes14, drained14) \<and>
   head_segment (descriptors drained14 ! 0) = 1 \<and>
   tail_segment (descriptors drained14 ! 0) = 1 \<and>
   (1 :: u16) \<noteq> INVALID_INDEX \<and>
   head_offset (descriptors drained14 ! 0) = 0 \<and>
   tail_offset (descriptors drained14 ! 0) = 0 \<and>
   dequeue_byte drained14 (Some 0) =
     Inr (data (segments drained14 ! 1) ! 0, q_update drained14 0 (\<lambda>d. d\<lparr>head_offset := 1\<rparr>)) \<and>
   dequeue_byte drained14 (Some 0) \<noteq> on_illegal_operation"
proof -
  have a: "length bytes14 = SEG_PAYLOAD_SIZE"
    by (simp add: bytes14_def SEG_PAYLOAD_SIZE_def)
  have b: "head_segment (descriptors drained14 ! 0) = 1"
    "tail_segment (descriptors drained14 ! 0) = 1"
    "head_offset (descriptors drained14 ! 0) = 0"
    "tail_offset (descriptors drained14 ! 0) = 0"
    by (simp_all add: drained14_descriptor)
  have c: "(1 :: u16) \<noteq> INVALID_INDEX" by (simp add: INVALID_INDEX_def)
  have d: "dequeue_byte drained14 (Some 0) \<noteq> on_illegal_operation"
    by (simp add: run_extra on_illegal_operation_def)
  from run_create a run_fill run_14 b c run_extra d show ?thesis by blast
qed

subsection \<open>What each step returns\<close>

lemma and_then_Inr:
  "and_then r f = Inr y \<longleftrightarrow> (\<exists>x. r = Inr x \<and> f x = Inr y)"
  by (cases r) (simp_all add: and_then_def)

lemma and_then_Inl:
  "and_then r f = Inl e \<longleftrightarrow> r = Inl e \<or> (\<exists>x. r = Inr x \<and> f x = Inl e)"
  by (cases r) (simp_all add: and_then_def)

lemma descriptors_q_update [simp]:
  "descriptors (q_update m i f) = (descriptors m)[i := f (descriptors m ! i)]"
  "segments (q_update m i f) = segments m"
  "global_data (q_update m i f) = global_data m"
  by (simp_all add: q_update_def)

lemma seg_Inr: "seg m idx = Inr sg \<longleftrightarrow> unat idx < SEGMENT_COUNT \<and> sg = segments m ! unat idx"
  by (auto simp: seg_def)

lemma seg_Inl: "seg m idx = Inl e \<longleftrightarrow> \<not> unat idx < SEGMENT_COUNT \<and> e = OutOfBounds Segments"
  by (auto simp: seg_def)

lemma set_next_Inr:
  "set_next m idx v = Inr m1 \<longleftrightarrow>
     unat idx < SEGMENT_COUNT \<and>
     m1 = m\<lparr>segments := (segments m)[unat idx := (segments m ! unat idx)\<lparr>next_index := v\<rparr>]\<rparr>"
  by (auto simp: set_next_def and_then_Inr seg_Inr)

lemma set_next_Inl: "set_next m idx v = Inl e \<longleftrightarrow> \<not> unat idx < SEGMENT_COUNT \<and> e = OutOfBounds Segments"
  by (auto simp: set_next_def and_then_Inl seg_Inl seg_Inr)

lemma free_segment_Inr:
  "free_segment m idx = Inr m1 \<longleftrightarrow>
     unat idx < SEGMENT_COUNT \<and>
     m1 = m\<lparr>segments := (segments m)[unat idx := (segments m ! unat idx)
                \<lparr>next_index := free_list_head (global_data m)\<rparr>],
            global_data := (global_data m)\<lparr>free_list_head := idx\<rparr>\<rparr>"
  by (auto simp: free_segment_def and_then_Inr set_next_Inr)

lemma free_segment_Inl:
  "free_segment m idx = Inl e \<longleftrightarrow> \<not> unat idx < SEGMENT_COUNT \<and> e = OutOfBounds Segments"
  by (auto simp: free_segment_def and_then_Inl set_next_Inl set_next_Inr)

lemma allocate_segment_descriptors:
  "allocate_segment m = Inr (x, m1) \<Longrightarrow> descriptors m1 = descriptors m \<and> segments m1 = segments m"
  by (auto simp: allocate_segment_def Let_def and_then_Inr on_out_of_memory_def split: if_splits)

lemma allocate_segment_Inl:
  "allocate_segment m = Inl e \<Longrightarrow> e = OutOfMemory \<or> e = OutOfBounds Segments"
  by (auto simp: allocate_segment_def Let_def and_then_Inl seg_Inl on_out_of_memory_def split: if_splits)

lemma set_data_Inr:
  "set_data m idx off b = Inr m1 \<longleftrightarrow>
     unat idx < SEGMENT_COUNT \<and> unat off < SEG_PAYLOAD_SIZE \<and>
     m1 = m\<lparr>segments := (segments m)[unat idx := (segments m ! unat idx)
                \<lparr>data := (data (segments m ! unat idx))[unat off := b]\<rparr>]\<rparr>"
  by (auto simp: set_data_def and_then_Inr seg_Inr)

lemma get_data_Inr:
  "get_data m idx off = Inr v \<longleftrightarrow>
     unat idx < SEGMENT_COUNT \<and> unat off < SEG_PAYLOAD_SIZE \<and>
     v = data (segments m ! unat idx) ! unat off"
  by (auto simp: get_data_def and_then_Inr seg_Inr)

lemma destroy_walk_descriptors_aux:
  "destroy_walk m p = Some y \<Longrightarrow> \<forall>m1. y = Inr m1 \<longrightarrow> descriptors m1 = descriptors m"
proof (induction rule: destroy_walk.raw_induct [rotated 1, consumes 1, case_names step])
  case (step walk m p y)
  show ?case
  proof (cases "p = INVALID_INDEX")
    case True
    with step(2) show ?thesis by auto
  next
    case False
    show ?thesis
    proof (intro allI impI)
      fix m1 assume y: "y = Inr m1"
      with step(2) False obtain m2 where f: "free_segment m p = Inr m2"
        and w: "walk m2 (next_index (segments m ! unat p)) = Some (Inr m1)"
        by (auto simp: seg_Inr split: sum.splits)
      from step(1) [OF w] have "descriptors m1 = descriptors m2" by simp
      with f show "descriptors m1 = descriptors m" by (simp add: free_segment_Inr)
    qed
  qed
qed

lemma destroy_walk_descriptors:
  "destroy_walk m p = Some (Inr m1) \<Longrightarrow> descriptors m1 = descriptors m"
  by (drule destroy_walk_descriptors_aux) simp

lemma create_scan_Inr:
  "create_scan m k = Inr (q, m') \<Longrightarrow>
   \<exists>i<MAX_QUEUES. q = Some i \<and> m' = q_update m i (\<lambda>d. d\<lparr>in_use := 1, head_segment := INVALID_INDEX,
                  tail_segment := INVALID_INDEX, head_offset := 0, tail_offset := 0\<rparr>)"
proof (induction m k rule: create_scan.induct)
  case (1 m i)
  then show ?case
    by (subst (asm) (2) create_scan.simps) (auto simp: on_out_of_memory_def split: if_splits)
qed

lemma unat_u8_succ: "unat (x :: u8) < SEG_PAYLOAD_SIZE \<Longrightarrow> unat (x + 1) = unat x + 1"
  by (simp add: unat_word_ariths SEG_PAYLOAD_SIZE_def)

lemma cursors_in_payload_update:
  assumes "cursors_in_payload m" and "cursors_ok d" and "descriptors m' = (descriptors m)[i := d]"
  shows "cursors_in_payload m'"
proof -
  have "cursors_ok (descriptors m' ! j)" if "j < MAX_QUEUES" for j
  proof (cases "j = i")
    case True
    with that assms show ?thesis by (simp add: cursors_in_payload_def)
  next
    case False
    with that assms show ?thesis by (simp add: cursors_in_payload_def)
  qed
  with assms show ?thesis by (simp add: cursors_in_payload_def)
qed

lemma cursors_in_payload_same:
  "cursors_in_payload m \<Longrightarrow> descriptors m' = descriptors m \<Longrightarrow> cursors_in_payload m'"
  by (simp add: cursors_in_payload_def)

lemma create_queue_cursors:
  assumes "cursors_in_payload m" and "create_queue m = Inr (q, m')"
  shows "cursors_in_payload m'"
proof -
  from assms(2) obtain i where
    "m' = q_update m i (\<lambda>d. d\<lparr>in_use := 1, head_segment := INVALID_INDEX,
                  tail_segment := INVALID_INDEX, head_offset := 0, tail_offset := 0\<rparr>)"
    unfolding create_queue_def by (blast dest: create_scan_Inr)
  then have "descriptors m' = (descriptors m)[i := (descriptors m ! i)\<lparr>in_use := 1,
      head_segment := INVALID_INDEX, tail_segment := INVALID_INDEX, head_offset := 0,
      tail_offset := 0\<rparr>]"
    by simp
  then show ?thesis
    by (rule cursors_in_payload_update [OF assms(1), rotated])
      (simp add: cursors_ok_def SEG_PAYLOAD_SIZE_def)
qed

lemma destroy_queue_cursors:
  assumes "cursors_in_payload m" and "destroy_queue m q = Some (Inr m')"
  shows "cursors_in_payload m'"
proof -
  from assms(2) obtain i m1 where w: "destroy_walk m (head_segment (descriptors m ! i)) = Some (Inr m1)"
    and m': "m' = q_update m1 i (\<lambda>d. d\<lparr>in_use := 0\<rparr>)"
    by (auto simp: destroy_queue_def on_illegal_operation_def
        split: option.splits if_splits sum.splits)
  from w have "descriptors m1 = descriptors m" by (rule destroy_walk_descriptors)
  with m' have "descriptors m' = (descriptors m)[i := (descriptors m ! i)\<lparr>in_use := 0\<rparr>]"
    by simp
  then show ?thesis
    by (rule cursors_in_payload_update [OF assms(1), rotated]) (simp add: cursors_ok_def)
qed

lemma enqueue_first_descriptors:
  assumes "enqueue_first m i = Inr m1"
  shows "descriptors m1 = descriptors m \<or>
         (\<exists>x. descriptors m1 = (descriptors m)[i := (descriptors m ! i)\<lparr>head_segment := x,
                 tail_segment := x, head_offset := 0, tail_offset := 0\<rparr>])"
  using assms
  by (auto simp: enqueue_first_def and_then_Inr set_next_Inr split: if_splits
      dest!: allocate_segment_descriptors)

lemma enqueue_write_descriptors:
  assumes "enqueue_write m i b = Inr m1"
  shows "unat (tail_offset (descriptors m ! i)) < SEG_PAYLOAD_SIZE \<and>
         descriptors m1 = (descriptors m)[i := (descriptors m ! i)
           \<lparr>tail_offset := tail_offset (descriptors m ! i) + 1\<rparr>]"
  using assms by (auto simp: enqueue_write_def Let_def and_then_Inr set_data_Inr)

lemma enqueue_grow_descriptors:
  assumes "enqueue_grow m i t = Inr m1"
  shows "(unat (tail_offset (descriptors m ! i)) \<noteq> SEG_PAYLOAD_SIZE \<and>
          descriptors m1 = descriptors m) \<or>
         (\<exists>x. descriptors m1 = (descriptors m)[i := (descriptors m ! i)\<lparr>tail_segment := x,
                 tail_offset := 0\<rparr>])"
  using assms
  by (auto simp: enqueue_grow_def and_then_Inr set_next_Inr split: if_splits
      dest!: allocate_segment_descriptors)

lemma enqueue_first_cursors:
  assumes "cursors_in_payload m" and "enqueue_first m i = Inr m1" and "i < MAX_QUEUES"
  shows "cursors_in_payload m1 \<and> in_use (descriptors m1 ! i) = in_use (descriptors m ! i)"
proof -
  from enqueue_first_descriptors [OF assms(2)] show ?thesis
  proof (elim disjE exE)
    assume "descriptors m1 = descriptors m"
    with assms(1) show ?thesis by (simp add: cursors_in_payload_def)
  next
    fix x
    assume eq: "descriptors m1 = (descriptors m)[i := (descriptors m ! i)\<lparr>head_segment := x,
                 tail_segment := x, head_offset := 0, tail_offset := 0\<rparr>]"
    then have "cursors_in_payload m1"
      by (rule cursors_in_payload_update [OF assms(1), rotated])
        (simp add: cursors_ok_def SEG_PAYLOAD_SIZE_def)
    moreover from eq assms(1,3) have "in_use (descriptors m1 ! i) = in_use (descriptors m ! i)"
      by (simp add: cursors_in_payload_def)
    ultimately show ?thesis ..
  qed
qed

lemma enqueue_byte_cursors:
  assumes "cursors_in_payload m" and "enqueue_byte m q b = Inr m'"
  shows "cursors_in_payload m'"
proof -
  from assms(2) obtain i m1 m2 where i: "i < MAX_QUEUES"
    and f: "enqueue_first m i = Inr m1"
    and w: "enqueue_write m1 i b = Inr m2"
    and g: "enqueue_grow m2 i (tail_segment (descriptors m1 ! i)) = Inr m'"
    by (auto simp: enqueue_byte_def on_illegal_operation_def and_then_Inr
        split: option.splits if_splits)
  from enqueue_first_cursors [OF assms(1) f i] have c1: "cursors_in_payload m1" ..
  with i have len: "i < length (descriptors m1)" and ok1: "cursors_ok (descriptors m1 ! i)"
    by (simp_all add: cursors_in_payload_def)
  let ?d1 = "descriptors m1 ! i"
  from enqueue_write_descriptors [OF w]
  have t: "unat (tail_offset ?d1) < SEG_PAYLOAD_SIZE"
    and d2: "descriptors m2 = (descriptors m1)[i := ?d1\<lparr>tail_offset := tail_offset ?d1 + 1\<rparr>]"
    by simp_all
  from d2 len have d2i: "descriptors m2 ! i = ?d1\<lparr>tail_offset := tail_offset ?d1 + 1\<rparr>"
    by simp
  from enqueue_grow_descriptors [OF g] show ?thesis
  proof (elim disjE exE conjE)
    assume ne: "unat (tail_offset (descriptors m2 ! i)) \<noteq> SEG_PAYLOAD_SIZE"
      and same: "descriptors m' = descriptors m2"
    from ne have "unat (tail_offset ?d1 + 1) \<noteq> SEG_PAYLOAD_SIZE"
      by (simp only: d2i) simp
    with t have "unat (tail_offset ?d1 + 1) < SEG_PAYLOAD_SIZE"
      by (simp add: unat_u8_succ)
    with ok1 have "cursors_ok (?d1\<lparr>tail_offset := tail_offset ?d1 + 1\<rparr>)"
      by (simp add: cursors_ok_def)
    moreover from same d2
    have "descriptors m' = (descriptors m1)[i := ?d1\<lparr>tail_offset := tail_offset ?d1 + 1\<rparr>]"
      by simp
    ultimately show ?thesis by (rule cursors_in_payload_update [OF c1])
  next
    fix x
    assume "descriptors m' = (descriptors m2)[i := (descriptors m2 ! i)\<lparr>tail_segment := x,
                 tail_offset := 0\<rparr>]"
    with d2 d2i have "descriptors m' = (descriptors m1)[i := ?d1\<lparr>tail_offset := tail_offset ?d1 + 1,
        tail_segment := x, tail_offset := 0\<rparr>]"
      by simp
    moreover from ok1 have "cursors_ok (?d1\<lparr>tail_offset := tail_offset ?d1 + 1,
        tail_segment := x, tail_offset := 0\<rparr>)"
      by (simp add: cursors_ok_def SEG_PAYLOAD_SIZE_def)
    ultimately show ?thesis by (rule cursors_in_payload_update [OF c1, rotated])
  qed
qed

lemma dequeue_settle_descriptors:
  assumes "dequeue_settle m i h = Inr m1"
  shows "(unat (head_offset (descriptors m ! i)) \<noteq> SEG_PAYLOAD_SIZE \<and>
          descriptors m1 = descriptors m) \<or>
         (\<exists>x y. descriptors m1 = (descriptors m)[i := (descriptors m ! i)\<lparr>head_segment := x,
                 tail_segment := y, head_offset := 0, tail_offset := 0\<rparr>]) \<or>
         (\<exists>x. descriptors m1 = (descriptors m)[i := (descriptors m ! i)\<lparr>head_segment := x,
                 head_offset := 0\<rparr>])"
proof -
  let ?d = "descriptors m ! i"
  consider (empty) "head_segment ?d = tail_segment ?d \<and> head_offset ?d = tail_offset ?d"
    | (advance) "\<not> (head_segment ?d = tail_segment ?d \<and> head_offset ?d = tail_offset ?d)"
        "unat (head_offset ?d) = SEG_PAYLOAD_SIZE"
    | (stay) "\<not> (head_segment ?d = tail_segment ?d \<and> head_offset ?d = tail_offset ?d)"
        "unat (head_offset ?d) \<noteq> SEG_PAYLOAD_SIZE"
    by blast
  then show ?thesis
  proof cases
    case empty
    with assms have "descriptors m1 = (descriptors m)[i := ?d\<lparr>head_segment := INVALID_INDEX,
        tail_segment := INVALID_INDEX, head_offset := 0, tail_offset := 0\<rparr>]"
      by (auto simp: dequeue_settle_def Let_def and_then_Inr free_segment_Inr)
    then show ?thesis by blast
  next
    case advance
    with assms have "descriptors m1 = (descriptors m)[i := ?d\<lparr>head_segment :=
        next_index (segments m ! unat h), head_offset := 0\<rparr>]"
      by (auto simp: dequeue_settle_def Let_def and_then_Inr free_segment_Inr seg_Inr)
    then show ?thesis by blast
  next
    case stay
    with assms have "descriptors m1 = descriptors m"
      by (auto simp: dequeue_settle_def Let_def)
    with stay show ?thesis by blast
  qed
qed

lemma dequeue_byte_cursors:
  assumes "cursors_in_payload m" and "dequeue_byte m q = Inr (v, m')"
  shows "cursors_in_payload m'"
proof -
  let ?step = "\<lambda>d. d\<lparr>head_offset := head_offset d + 1\<rparr>"
  from assms(2) obtain i where i: "i < MAX_QUEUES"
    and u: "in_use (descriptors m ! i) \<noteq> 0"
    and r: "get_data m (head_segment (descriptors m ! i)) (head_offset (descriptors m ! i)) = Inr v"
    and s: "dequeue_settle (q_update m i ?step) i (head_segment (descriptors m ! i)) = Inr m'"
    by (auto simp: dequeue_byte_def on_illegal_operation_def and_then_Inr Let_def
        split: option.splits if_splits)
  let ?d = "descriptors m ! i"
  from assms(1) i have len: "i < length (descriptors m)" and ok: "cursors_ok ?d"
    by (simp_all add: cursors_in_payload_def)
  from r have h: "unat (head_offset ?d) < SEG_PAYLOAD_SIZE" by (simp add: get_data_Inr)
  from len have d0: "descriptors (q_update m i ?step) ! i = ?step ?d" by simp
  from dequeue_settle_descriptors [OF s] show ?thesis
  proof (elim disjE exE conjE)
    assume ne: "unat (head_offset (descriptors (q_update m i ?step) ! i)) \<noteq> SEG_PAYLOAD_SIZE"
      and same: "descriptors m' = descriptors (q_update m i ?step)"
    from ne have "unat (head_offset ?d + 1) \<noteq> SEG_PAYLOAD_SIZE"
      by (simp only: d0) simp
    with h have "unat (head_offset ?d + 1) < SEG_PAYLOAD_SIZE"
      by (simp add: unat_u8_succ)
    with ok have "cursors_ok (?step ?d)" by (simp add: cursors_ok_def)
    moreover from same have "descriptors m' = (descriptors m)[i := ?step ?d]" by simp
    ultimately show ?thesis by (rule cursors_in_payload_update [OF assms(1)])
  next
    fix x y
    assume "descriptors m' = (descriptors (q_update m i ?step))
      [i := (descriptors (q_update m i ?step) ! i)\<lparr>head_segment := x,
                 tail_segment := y, head_offset := 0, tail_offset := 0\<rparr>]"
    with d0 have "descriptors m' = (descriptors m)[i := ?d\<lparr>head_offset := head_offset ?d + 1,
        head_segment := x, tail_segment := y, head_offset := 0, tail_offset := 0\<rparr>]"
      by simp
    then show ?thesis
      by (rule cursors_in_payload_update [OF assms(1), rotated])
        (simp add: cursors_ok_def SEG_PAYLOAD_SIZE_def)
  next
    fix x
    assume "descriptors m' = (descriptors (q_update m i ?step))
      [i := (descriptors (q_update m i ?step) ! i)\<lparr>head_segment := x, head_offset := 0\<rparr>]"
    with d0 have "descriptors m' = (descriptors m)[i := ?d\<lparr>head_offset := head_offset ?d + 1,
        head_segment := x, head_offset := 0\<rparr>]"
      by simp
    moreover from ok have "cursors_ok (?d\<lparr>head_offset := head_offset ?d + 1,
        head_segment := x, head_offset := 0\<rparr>)"
      by (simp add: cursors_ok_def SEG_PAYLOAD_SIZE_def)
    ultimately show ?thesis by (rule cursors_in_payload_update [OF assms(1), rotated])
  qed
qed

lemma cursors_in_payload_zeroed: "cursors_in_payload zeroed"
  by (simp add: cursors_in_payload_def cursors_ok_def zeroed_def)

lemma reachable_cursors: "reachable m \<Longrightarrow> cursors_in_payload m"
proof (induction rule: reachable.induct)
  case start
  show ?case by (rule cursors_in_payload_zeroed)
next
  case (create m q m')
  then show ?case by (blast intro: create_queue_cursors)
next
  case (destroy m q m')
  then show ?case by (blast intro: destroy_queue_cursors)
next
  case (enqueue m q b m')
  then show ?case by (blast intro: enqueue_byte_cursors)
next
  case (dequeue m q v m')
  then show ?case by (blast intro: dequeue_byte_cursors)
qed

lemma enqueue_byte_payload_fault:
  assumes "cursors_in_payload m"
  shows "enqueue_byte m q b \<noteq> Inl (OutOfBounds Payload)"
proof
  assume e: "enqueue_byte m q b = Inl (OutOfBounds Payload)"
  then obtain i where q: "q = Some i" and i: "i < MAX_QUEUES"
    and u: "in_use (descriptors m ! i) \<noteq> 0"
    by (auto simp: enqueue_byte_def on_illegal_operation_def split: option.splits if_splits)
  have first: "enqueue_first m i \<noteq> Inl (OutOfBounds Payload)"
    by (auto simp: enqueue_first_def and_then_Inl set_next_Inl
        dest: allocate_segment_Inl split: if_splits)
  have grow: "enqueue_grow m2 i t \<noteq> Inl (OutOfBounds Payload)" for m2 t
    by (auto simp: enqueue_grow_def and_then_Inl set_next_Inl
        dest: allocate_segment_Inl split: if_splits)
  from e q i u first grow obtain m1 where f: "enqueue_first m i = Inr m1"
    and w: "enqueue_write m1 i b = Inl (OutOfBounds Payload)"
    by (auto simp: enqueue_byte_def and_then_Inl)
  from enqueue_first_cursors [OF assms f i] u i
  have "unat (tail_offset (descriptors m1 ! i)) < SEG_PAYLOAD_SIZE"
    by (simp add: cursors_in_payload_def cursors_ok_def)
  with w show False
    by (auto simp: enqueue_write_def Let_def and_then_Inl set_data_def seg_Inl)
qed

lemma dequeue_byte_payload_fault:
  assumes "cursors_in_payload m"
  shows "dequeue_byte m q \<noteq> Inl (OutOfBounds Payload)"
proof
  assume e: "dequeue_byte m q = Inl (OutOfBounds Payload)"
  then obtain i where q: "q = Some i" and i: "i < MAX_QUEUES"
    and u: "in_use (descriptors m ! i) \<noteq> 0"
    by (auto simp: dequeue_byte_def on_illegal_operation_def split: option.splits if_splits)
  have settle: "dequeue_settle m2 i h \<noteq> Inl (OutOfBounds Payload)" for m2 h
    by (auto simp: dequeue_settle_def Let_def and_then_Inl free_segment_Inl seg_Inl
        split: if_splits)
  from assms u i have "unat (head_offset (descriptors m ! i)) < SEG_PAYLOAD_SIZE"
    by (simp add: cursors_in_payload_def cursors_ok_def)
  with e q i u settle show False
    by (auto simp: dequeue_byte_def Let_def and_then_Inl get_data_def seg_Inl
        on_illegal_operation_def split: if_splits)
qed

lemma enqueue_bytes_reachable:
  "reachable m \<Longrightarrow> enqueue_bytes m q bs = Inr m' \<Longrightarrow> reachable m'"
proof (induction bs arbitrary: m)
  case Nil
  then show ?case by simp
next
  case (Cons b bs)
  from Cons.prems(2) obtain m1 where "enqueue_byte m q b = Inr m1"
    and "enqueue_bytes m1 q bs = Inr m'"
    by (auto simp: and_then_Inr)
  with Cons.prems(1) Cons.IH show ?case by (blast intro: reachable.enqueue)
qed

text \<open>
  C9: in every state the public operations reach, each descriptor in use has both cursors
  below 14, so no \<open>enqueue_byte\<close> or \<open>dequeue_byte\<close> call reads or writes outside a
  segment's 14-byte payload.
\<close>

theorem cursor_bounds:
  assumes "reachable m" and "i < MAX_QUEUES" and "in_use (descriptors m ! i) \<noteq> 0"
  shows "unat (head_offset (descriptors m ! i)) < SEG_PAYLOAD_SIZE \<and>
         unat (tail_offset (descriptors m ! i)) < SEG_PAYLOAD_SIZE \<and>
         enqueue_byte m q b \<noteq> Inl (OutOfBounds Payload) \<and>
         dequeue_byte m q \<noteq> Inl (OutOfBounds Payload)"
proof -
  from assms(1) have c: "cursors_in_payload m" by (rule reachable_cursors)
  with assms(2,3) have "unat (head_offset (descriptors m ! i)) < SEG_PAYLOAD_SIZE"
    "unat (tail_offset (descriptors m ! i)) < SEG_PAYLOAD_SIZE"
    by (simp_all add: cursors_in_payload_def cursors_ok_def)
  with enqueue_byte_payload_fault [OF c] dequeue_byte_payload_fault [OF c]
  show ?thesis by simp
qed

theorem cursor_bounds_witness:
  "reachable filled14 \<and> (0::nat) < MAX_QUEUES \<and> in_use (descriptors filled14 ! 0) \<noteq> 0 \<and>
   unat (head_offset (descriptors filled14 ! 0)) < SEG_PAYLOAD_SIZE \<and>
   unat (tail_offset (descriptors filled14 ! 0)) < SEG_PAYLOAD_SIZE \<and>
   enqueue_byte filled14 (Some 0) 15 \<noteq> Inl (OutOfBounds Payload) \<and>
   dequeue_byte filled14 (Some 0) \<noteq> Inl (OutOfBounds Payload)"
proof -
  have "reachable one_queue"
    using reachable.start run_create by (rule reachable.create)
  then have a: "reachable filled14"
    using run_fill by (rule enqueue_bytes_reachable)
  have b: "(0::nat) < MAX_QUEUES" by (simp add: MAX_QUEUES_def)
  have c: "in_use (descriptors filled14 ! 0) \<noteq> 0"
    by (simp add: filled14_def zeroed_def MAX_QUEUES_def)
  from cursor_bounds [OF a b c, of "Some 0" 15] a b c show ?thesis by simp
qed

subsection \<open>Segment chains\<close>

lemma chain_in_pool: "chain sgs p cs \<Longrightarrow> c \<in> set cs \<Longrightarrow> unat c < SEGMENT_COUNT"
  by (induction cs arbitrary: p) auto

lemma in_pool_not_sentinel: "unat c < SEGMENT_COUNT \<Longrightarrow> c \<noteq> INVALID_INDEX"
  by (auto simp: INVALID_INDEX_def SEGMENT_COUNT_eq)

lemma chain_unique: "chain sgs p cs \<Longrightarrow> chain sgs p cs' \<Longrightarrow> cs = cs'"
proof (induction cs arbitrary: p cs')
  case Nil
  then show ?case by (cases cs') (auto dest: in_pool_not_sentinel)
next
  case (Cons c cs)
  then show ?case by (cases cs') (auto dest: in_pool_not_sentinel)
qed

lemma chain_suffix: "chain sgs p (as @ bs) \<Longrightarrow> \<exists>q. chain sgs q bs"
  by (induction as arbitrary: p) auto

lemma chain_head_fresh:
  assumes "chain sgs p (c # cs)"
  shows "c \<notin> set cs"
proof
  assume "c \<in> set cs"
  then obtain as bs where cs: "cs = as @ c # bs" by (auto simp: in_set_conv_decomp)
  from assms have rest: "chain sgs (next_index (sgs ! unat c)) cs" by simp
  with cs obtain q where "chain sgs q (c # bs)" by (auto dest: chain_suffix)
  then have "chain sgs (next_index (sgs ! unat c)) bs" by simp
  with rest have "cs = bs" by (rule chain_unique)
  with cs show False by simp
qed

lemma chain_distinct: "chain sgs p cs \<Longrightarrow> distinct cs"
proof (induction cs arbitrary: p)
  case Nil
  then show ?case by simp
next
  case (Cons c cs)
  from Cons.prems have "c \<notin> set cs" by (rule chain_head_fresh)
  moreover from Cons.prems have "chain sgs (next_index (sgs ! unat c)) cs" by simp
  then have "distinct cs" by (rule Cons.IH)
  ultimately show ?case by simp
qed

lemma chain_cong:
  "(\<And>c. c \<in> set cs \<Longrightarrow> next_index (sgs' ! unat c) = next_index (sgs ! unat c)) \<Longrightarrow>
   chain sgs' p cs = chain sgs p cs"
  by (induction cs arbitrary: p) auto

lemma unat_eq_u16: "unat (x :: u16) = unat y \<longleftrightarrow> x = y"
  by (simp add: word_unat_eq_iff)

lemma chain_update_other:
  "x \<notin> set cs \<Longrightarrow> chain (sgs[unat x := v]) p cs = chain sgs p cs"
proof (rule chain_cong)
  fix c assume "x \<notin> set cs" and "c \<in> set cs"
  then have "unat x \<noteq> unat c" by (auto simp: unat_eq_u16)
  then show "next_index (sgs[unat x := v] ! unat c) = next_index (sgs ! unat c)" by simp
qed

subsection \<open>Free, then allocate\<close>

lemma allocate_segment_initialized:
  "allocate_segment m = Inr (x, m1) \<Longrightarrow> initialized (global_data m1) \<noteq> 0"
  by (auto simp: allocate_segment_def Let_def and_then_Inr on_out_of_memory_def split: if_splits)

lemma destroy_walk_initialized_aux:
  "destroy_walk m p = Some y \<Longrightarrow>
   \<forall>m1. y = Inr m1 \<longrightarrow> initialized (global_data m1) = initialized (global_data m)"
proof (induction rule: destroy_walk.raw_induct [rotated 1, consumes 1, case_names step])
  case (step walk m p y)
  show ?case
  proof (cases "p = INVALID_INDEX")
    case True
    with step(2) show ?thesis by auto
  next
    case False
    show ?thesis
    proof (intro allI impI)
      fix m1 assume y: "y = Inr m1"
      with step(2) False obtain m2 where f: "free_segment m p = Inr m2"
        and w: "walk m2 (next_index (segments m ! unat p)) = Some (Inr m1)"
        by (auto simp: seg_Inr split: sum.splits)
      from step(1) [OF w] have "initialized (global_data m1) = initialized (global_data m2)"
        by simp
      with f show "initialized (global_data m1) = initialized (global_data m)"
        by (simp add: free_segment_Inr)
    qed
  qed
qed

lemma enqueue_byte_initialized:
  assumes "enqueue_byte m q b = Inr m'"
    and "initialized (global_data m) = 0 \<longrightarrow> (\<forall>i<MAX_QUEUES. in_use (descriptors m ! i) \<noteq> 0 \<longrightarrow>
           tail_segment (descriptors m ! i) = INVALID_INDEX)"
  shows "initialized (global_data m') \<noteq> 0"
proof -
  from assms(1) obtain i m1 m2 where i: "i < MAX_QUEUES"
    and u: "in_use (descriptors m ! i) \<noteq> 0"
    and f: "enqueue_first m i = Inr m1"
    and w: "enqueue_write m1 i b = Inr m2"
    and g: "enqueue_grow m2 i (tail_segment (descriptors m1 ! i)) = Inr m'"
    by (auto simp: enqueue_byte_def on_illegal_operation_def and_then_Inr
        split: option.splits if_splits)
  have 1: "initialized (global_data m1) \<noteq> 0"
  proof (cases "initialized (global_data m) = 0")
    case True
    with assms(2) i u have "tail_segment (descriptors m ! i) = INVALID_INDEX" by simp
    with f show ?thesis
      by (auto simp: enqueue_first_def and_then_Inr set_next_Inr
          dest: allocate_segment_initialized)
  next
    case False
    with f show ?thesis
      by (auto simp: enqueue_first_def and_then_Inr set_next_Inr
          dest: allocate_segment_initialized split: if_splits)
  qed
  from w have "global_data m2 = global_data m1"
    by (auto simp: enqueue_write_def Let_def and_then_Inr set_data_Inr)
  with 1 have 2: "initialized (global_data m2) \<noteq> 0" by simp
  with g show ?thesis
    by (auto simp: enqueue_grow_def and_then_Inr set_next_Inr
        dest: allocate_segment_initialized split: if_splits)
qed

lemma dequeue_settle_initialized:
  "dequeue_settle m i h = Inr m1 \<Longrightarrow> initialized (global_data m1) = initialized (global_data m)"
  by (auto simp: dequeue_settle_def Let_def and_then_Inr free_segment_Inr seg_Inr
      split: if_splits)

lemma dequeue_byte_initialized:
  assumes "dequeue_byte m q = Inr (v, m')"
  shows "initialized (global_data m') = initialized (global_data m) \<and>
         (\<exists>i<MAX_QUEUES. q = Some i \<and> in_use (descriptors m ! i) \<noteq> 0 \<and>
            head_segment (descriptors m ! i) \<noteq> INVALID_INDEX)"
  using assms
  by (auto simp: dequeue_byte_def on_illegal_operation_def and_then_Inr Let_def
      split: option.splits if_splits dest!: dequeue_settle_initialized)

lemma reachable_uninitialized:
  "reachable m \<Longrightarrow> initialized (global_data m) = 0 \<Longrightarrow>
   i < MAX_QUEUES \<Longrightarrow> in_use (descriptors m ! i) \<noteq> 0 \<Longrightarrow>
   head_segment (descriptors m ! i) = INVALID_INDEX \<and>
   tail_segment (descriptors m ! i) = INVALID_INDEX"
proof (induction arbitrary: i rule: reachable.induct)
  case start
  then show ?case by (simp add: zeroed_def)
next
  case (create m q m')
  from create.hyps(1) have len: "length (descriptors m) = MAX_QUEUES"
    by (auto dest: reachable_cursors simp: cursors_in_payload_def)
  from create.hyps(2) obtain k where k: "k < MAX_QUEUES"
    and m': "m' = q_update m k (\<lambda>d. d\<lparr>in_use := 1, head_segment := INVALID_INDEX,
                  tail_segment := INVALID_INDEX, head_offset := 0, tail_offset := 0\<rparr>)"
    unfolding create_queue_def by (blast dest: create_scan_Inr)
  show ?case
  proof (cases "i = k")
    case True
    with m' k len show ?thesis by simp
  next
    case False
    with m' create.prems create.IH [of i] show ?thesis by simp
  qed
next
  case (destroy m q m')
  from destroy.hyps(1) have len: "length (descriptors m) = MAX_QUEUES"
    by (auto dest: reachable_cursors simp: cursors_in_payload_def)
  from destroy.hyps(2) obtain k m1 where k: "k < MAX_QUEUES"
    and w: "destroy_walk m (head_segment (descriptors m ! k)) = Some (Inr m1)"
    and m': "m' = q_update m1 k (\<lambda>d. d\<lparr>in_use := 0\<rparr>)"
    by (auto simp: destroy_queue_def on_illegal_operation_def
        split: option.splits if_splits sum.splits)
  from w have d: "descriptors m1 = descriptors m" by (rule destroy_walk_descriptors)
  from destroy_walk_initialized_aux [OF w]
  have "initialized (global_data m1) = initialized (global_data m)" by simp
  with m' destroy.prems(1) have ini: "initialized (global_data m) = 0" by simp
  show ?case
  proof (cases "i = k")
    case True
    with m' d k len destroy.prems(3) show ?thesis by simp
  next
    case False
    with m' d destroy.prems(2,3) destroy.IH [OF ini, of i] show ?thesis by simp
  qed
next
  case (enqueue m q b m')
  have "initialized (global_data m') \<noteq> 0"
    using enqueue.hyps(2)
  proof (rule enqueue_byte_initialized)
    show "initialized (global_data m) = 0 \<longrightarrow> (\<forall>i<MAX_QUEUES. in_use (descriptors m ! i) \<noteq> 0 \<longrightarrow>
           tail_segment (descriptors m ! i) = INVALID_INDEX)"
      using enqueue.IH by blast
  qed
  with enqueue.prems(1) show ?case by simp
next
  case (dequeue m q v m')
  from dequeue_byte_initialized [OF dequeue.hyps(2)] dequeue.prems(1)
  obtain k where "initialized (global_data m) = 0" and "k < MAX_QUEUES"
    and "in_use (descriptors m ! k) \<noteq> 0"
    and "head_segment (descriptors m ! k) \<noteq> INVALID_INDEX"
    by auto
  with dequeue.IH [of k] show ?case by simp
qed

text \<open>
  C5: after \<open>free_segment(X)\<close> has returned in an initialised allocator, the
  \<open>allocate_segment()\<close> that follows at once returns \<open>X\<close>; the bump pointer does not
  move and the allocator state is the one before the two calls. This covers every state in
  which the program frees a segment: the flag is set by the first allocation and never
  cleared, and in a reachable state where it is still 0 every queue in use has its head at
  the sentinel, so \<open>dequeue_byte\<close> faults and \<open>destroy_queue\<close> frees nothing.
\<close>

theorem free_then_allocate:
  assumes "well_sized m"
  shows "(initialized (global_data m) \<noteq> 0 \<and> free_segment m X = Inr m1 \<longrightarrow>
            (\<exists>m2. allocate_segment m1 = Inr (X, m2) \<and>
               next_unused (global_data m2) = next_unused (global_data m1) \<and>
               global_data m2 = global_data m)) \<and>
         (reachable m \<and> initialized (global_data m) = 0 \<longrightarrow>
            (\<exists>e. dequeue_byte m q = Inl e) \<and>
            (\<forall>m'. destroy_queue m q = Some (Inr m') \<longrightarrow>
               segments m' = segments m \<and> global_data m' = global_data m))"
proof (intro conjI impI)
  assume a: "initialized (global_data m) \<noteq> 0 \<and> free_segment m X = Inr m1"
  then have X: "unat X < SEGMENT_COUNT"
    and m1: "m1 = m\<lparr>segments := (segments m)[unat X := (segments m ! unat X)
                \<lparr>next_index := free_list_head (global_data m)\<rparr>],
            global_data := (global_data m)\<lparr>free_list_head := X\<rparr>\<rparr>"
    by (simp_all add: free_segment_Inr)
  from X have ne: "X \<noteq> INVALID_INDEX" by (rule in_pool_not_sentinel)
  from assms X have len: "unat X < length (segments m)" by (simp add: well_sized_def)
  from a X ne len
  show "\<exists>m2. allocate_segment m1 = Inr (X, m2) \<and>
               next_unused (global_data m2) = next_unused (global_data m1) \<and>
               global_data m2 = global_data m"
    by (simp add: m1 seg_def and_then_def allocate_segment_def)
next
  assume b: "reachable m \<and> initialized (global_data m) = 0"
  then have sentinel: "head_segment (descriptors m ! i) = INVALID_INDEX"
    if "i < MAX_QUEUES" and "in_use (descriptors m ! i) \<noteq> 0" for i
    using that reachable_uninitialized by blast
  show "\<exists>e. dequeue_byte m q = Inl e"
  proof (cases q)
    case None
    then show ?thesis by (simp add: dequeue_byte_def on_illegal_operation_def)
  next
    case (Some i)
    with sentinel [of i] show ?thesis
      by (auto simp: dequeue_byte_def on_illegal_operation_def)
  qed
  show "\<forall>m'. destroy_queue m q = Some (Inr m') \<longrightarrow>
               segments m' = segments m \<and> global_data m' = global_data m"
  proof (intro allI impI)
    fix m' assume d: "destroy_queue m q = Some (Inr m')"
    then obtain i m1 where i: "i < MAX_QUEUES" and u: "in_use (descriptors m ! i) \<noteq> 0"
      and w: "destroy_walk m (head_segment (descriptors m ! i)) = Some (Inr m1)"
      and m': "m' = q_update m1 i (\<lambda>d. d\<lparr>in_use := 0\<rparr>)"
      by (auto simp: destroy_queue_def on_illegal_operation_def
          split: option.splits if_splits sum.splits)
    from sentinel [OF i u] w have "m1 = m" by (subst (asm) destroy_walk.simps) simp
    with m' show "segments m' = segments m \<and> global_data m' = global_data m" by simp
  qed
qed

theorem free_then_allocate_witness:
  "well_sized filled14 \<and> initialized (global_data filled14) \<noteq> 0 \<and>
   (\<exists>m1 m2. free_segment filled14 0 = Inr m1 \<and> allocate_segment m1 = Inr (0, m2) \<and>
      next_unused (global_data m2) = next_unused (global_data filled14)) \<and>
   well_sized one_queue \<and> reachable one_queue \<and> initialized (global_data one_queue) = 0 \<and>
   (\<exists>e. dequeue_byte one_queue (Some 0) = Inl e)"
proof -
  have a: "well_sized filled14" by code_simp
  have b: "initialized (global_data filled14) \<noteq> 0" by (simp add: filled14_def)
  obtain m1 where c: "free_segment filled14 0 = Inr m1"
    by (simp add: free_segment_Inr SEGMENT_COUNT_eq)
  from free_then_allocate [OF a, of 0 m1] b c
  obtain m2 where d: "allocate_segment m1 = Inr (0, m2)"
    and e: "global_data m2 = global_data filled14"
    by blast
  have f: "reachable one_queue"
    using reachable.start run_create by (rule reachable.create)
  have g: "initialized (global_data one_queue) = 0"
    by (simp add: one_queue_def zeroed_def)
  from free_then_allocate [OF well_sized_one_queue, of 0 m1 "Some 0"] f g
  have h: "\<exists>e. dequeue_byte one_queue (Some 0) = Inl e" by blast
  from c d e have "\<exists>m1 m2. free_segment filled14 0 = Inr m1 \<and> allocate_segment m1 = Inr (0, m2) \<and>
      next_unused (global_data m2) = next_unused (global_data filled14)"
    by auto
  with a b well_sized_one_queue f g h show ?thesis by blast
qed

subsection \<open>Destroying a queue\<close>

lemma destroy_walk_chain:
  assumes "length (segments m) = SEGMENT_COUNT" and "chain (segments m) p cs"
  shows "\<exists>m'. destroy_walk m p = Some (Inr m') \<and>
           descriptors m' = descriptors m \<and>
           length (segments m') = SEGMENT_COUNT \<and>
           free_list_head (global_data m') = last (free_list_head (global_data m) # cs) \<and>
           next_unused (global_data m') = next_unused (global_data m) \<and>
           initialized (global_data m') = initialized (global_data m) \<and>
           (\<forall>k<length cs. next_index (segments m' ! unat (cs ! k)) =
              (free_list_head (global_data m) # cs) ! k) \<and>
           (\<forall>j<SEGMENT_COUNT. data (segments m' ! j) = data (segments m ! j)) \<and>
           (\<forall>j<SEGMENT_COUNT. j \<notin> unat ` set cs \<longrightarrow> segments m' ! j = segments m ! j) \<and>
           (\<forall>fl. chain (segments m) (free_list_head (global_data m)) fl \<and> set fl \<inter> set cs = {}
              \<longrightarrow> chain (segments m') (free_list_head (global_data m')) (rev cs @ fl))"
  using assms
proof (induction cs arbitrary: m p)
  case Nil
  then show ?case by (subst destroy_walk.simps) simp
next
  case (Cons c cs)
  let ?F = "free_list_head (global_data m)"
  let ?n = "next_index (segments m ! unat c)"
  let ?m1 = "m\<lparr>segments := (segments m)[unat c := (segments m ! unat c)\<lparr>next_index := ?F\<rparr>],
               global_data := (global_data m)\<lparr>free_list_head := c\<rparr>\<rparr>"
  from Cons.prems have p: "p = c" and c: "unat c < SEGMENT_COUNT"
    and rest: "chain (segments m) ?n cs"
    by simp_all
  from Cons.prems(2) have fresh: "c \<notin> set cs" by (rule chain_head_fresh)
  from c have ne: "c \<noteq> INVALID_INDEX" by (rule in_pool_not_sentinel)
  have free: "free_segment m c = Inr ?m1" using c by (simp add: free_segment_Inr)
  have walk: "destroy_walk m p = destroy_walk ?m1 ?n"
    using p c ne free by (subst destroy_walk.simps) (simp add: seg_def)
  have len1: "length (segments ?m1) = SEGMENT_COUNT" using Cons.prems(1) by simp
  have rest1: "chain (segments ?m1) ?n cs" using rest fresh by (simp add: chain_update_other)
  from Cons.IH [OF len1 rest1] obtain m' where w: "destroy_walk ?m1 ?n = Some (Inr m')"
    and d: "descriptors m' = descriptors ?m1"
    and l: "length (segments m') = SEGMENT_COUNT"
    and f: "free_list_head (global_data m') = last (free_list_head (global_data ?m1) # cs)"
    and u: "next_unused (global_data m') = next_unused (global_data ?m1)"
    and ini: "initialized (global_data m') = initialized (global_data ?m1)"
    and nx: "\<forall>k<length cs. next_index (segments m' ! unat (cs ! k)) =
              (free_list_head (global_data ?m1) # cs) ! k"
    and dt: "\<forall>j<SEGMENT_COUNT. data (segments m' ! j) = data (segments ?m1 ! j)"
    and ot: "\<forall>j<SEGMENT_COUNT. j \<notin> unat ` set cs \<longrightarrow> segments m' ! j = segments ?m1 ! j"
    and ch: "\<forall>fl. chain (segments ?m1) (free_list_head (global_data ?m1)) fl \<and>
               set fl \<inter> set cs = {}
              \<longrightarrow> chain (segments m') (free_list_head (global_data m')) (rev cs @ fl)"
    by blast
  from fresh have cnot: "unat c \<notin> unat ` set cs" by (auto simp: unat_eq_u16)
  with ot c have atc: "segments m' ! unat c = segments ?m1 ! unat c" by simp
  have c_len: "unat c < length (segments m)" using c Cons.prems(1) by simp
  have 1: "\<forall>k<length (c # cs). next_index (segments m' ! unat ((c # cs) ! k)) =
              (?F # c # cs) ! k"
  proof (intro allI impI)
    fix k assume "k < length (c # cs)"
    then show "next_index (segments m' ! unat ((c # cs) ! k)) = (?F # c # cs) ! k"
      using nx atc c_len by (cases k) simp_all
  qed
  have 2: "\<forall>j<SEGMENT_COUNT. data (segments m' ! j) = data (segments m ! j)"
  proof (intro allI impI)
    fix j assume "j < SEGMENT_COUNT"
    with dt have "data (segments m' ! j) = data (segments ?m1 ! j)" by simp
    also have "\<dots> = data (segments m ! j)"
      using c_len by (cases "j = unat c") simp_all
    finally show "data (segments m' ! j) = data (segments m ! j)" .
  qed
  have 3: "\<forall>j<SEGMENT_COUNT. j \<notin> unat ` set (c # cs) \<longrightarrow> segments m' ! j = segments m ! j"
    using ot by auto
  have 4: "\<forall>fl. chain (segments m) ?F fl \<and> set fl \<inter> set (c # cs) = {}
              \<longrightarrow> chain (segments m') (free_list_head (global_data m')) (rev (c # cs) @ fl)"
  proof (intro allI impI, elim conjE)
    fix fl assume fl: "chain (segments m) ?F fl" and dj: "set fl \<inter> set (c # cs) = {}"
    from dj have "c \<notin> set fl" by auto
    with fl have "chain (segments ?m1) ?F fl" by (simp add: chain_update_other)
    with c c_len have "chain (segments ?m1) (free_list_head (global_data ?m1)) (c # fl)"
      by simp
    moreover from dj fresh have "set (c # fl) \<inter> set cs = {}" by auto
    ultimately have "chain (segments m') (free_list_head (global_data m')) (rev cs @ c # fl)"
      using ch by blast
    then show "chain (segments m') (free_list_head (global_data m')) (rev (c # cs) @ fl)"
      by simp
  qed
  from walk w d l f u ini 1 2 3 4 show ?case by simp
qed

text \<open>
  C7: on a valid handle of a queue in use whose chain from the head holds the \<open>k\<close>
  segments \<open>cs\<close>, \<open>destroy_queue\<close> returns; it has pushed exactly these segments
  onto the free list, from head to tail (each one's \<open>next\<close> is the free-list head
  before its push, the new head is the last of them, and a free list \<open>fl\<close> disjoint
  from the chain becomes \<open>rev cs @ fl\<close>), and cleared \<open>in_use\<close> of that descriptor.
  No other descriptor field, no payload, no other segment and neither the bump pointer nor
  the initialisation flag changes.
\<close>

theorem destroy_queue_frees_chain:
  assumes "well_sized m" and "i < MAX_QUEUES" and "in_use (descriptors m ! i) \<noteq> 0"
    and "chain (segments m) (head_segment (descriptors m ! i)) cs"
  shows "\<exists>m'. destroy_queue m (Some i) = Some (Inr m') \<and>
           descriptors m' = (descriptors m)[i := (descriptors m ! i)\<lparr>in_use := 0\<rparr>] \<and>
           length (segments m') = SEGMENT_COUNT \<and>
           free_list_head (global_data m') = last (free_list_head (global_data m) # cs) \<and>
           next_unused (global_data m') = next_unused (global_data m) \<and>
           initialized (global_data m') = initialized (global_data m) \<and>
           (\<forall>k<length cs. next_index (segments m' ! unat (cs ! k)) =
              (free_list_head (global_data m) # cs) ! k) \<and>
           (\<forall>j<SEGMENT_COUNT. data (segments m' ! j) = data (segments m ! j)) \<and>
           (\<forall>j<SEGMENT_COUNT. j \<notin> unat ` set cs \<longrightarrow> segments m' ! j = segments m ! j) \<and>
           (\<forall>fl. chain (segments m) (free_list_head (global_data m)) fl \<and> set fl \<inter> set cs = {}
              \<longrightarrow> chain (segments m') (free_list_head (global_data m')) (rev cs @ fl))"
proof -
  from assms(1) have "length (segments m) = SEGMENT_COUNT" by (simp add: well_sized_def)
  from destroy_walk_chain [OF this assms(4)] obtain m1
    where w: "destroy_walk m (head_segment (descriptors m ! i)) = Some (Inr m1)"
      and d: "descriptors m1 = descriptors m"
      and rest: "length (segments m1) = SEGMENT_COUNT"
        "free_list_head (global_data m1) = last (free_list_head (global_data m) # cs)"
        "next_unused (global_data m1) = next_unused (global_data m)"
        "initialized (global_data m1) = initialized (global_data m)"
        "\<forall>k<length cs. next_index (segments m1 ! unat (cs ! k)) =
              (free_list_head (global_data m) # cs) ! k"
        "\<forall>j<SEGMENT_COUNT. data (segments m1 ! j) = data (segments m ! j)"
        "\<forall>j<SEGMENT_COUNT. j \<notin> unat ` set cs \<longrightarrow> segments m1 ! j = segments m ! j"
        "\<forall>fl. chain (segments m) (free_list_head (global_data m)) fl \<and> set fl \<inter> set cs = {}
              \<longrightarrow> chain (segments m1) (free_list_head (global_data m1)) (rev cs @ fl)"
    by blast
  let ?m' = "q_update m1 i (\<lambda>d. d\<lparr>in_use := 0\<rparr>)"
  from assms(2,3) w have "destroy_queue m (Some i) = Some (Inr ?m')"
    by (simp add: destroy_queue_def)
  moreover have "descriptors ?m' = (descriptors m)[i := (descriptors m ! i)\<lparr>in_use := 0\<rparr>]"
    using d by simp
  moreover have "segments ?m' = segments m1" and "global_data ?m' = global_data m1"
    by simp_all
  ultimately show ?thesis using rest by (intro exI [of _ ?m']) (simp only: simp_thms)
qed

theorem destroy_queue_frees_chain_witness:
  "well_sized filled14 \<and> (0::nat) < MAX_QUEUES \<and> in_use (descriptors filled14 ! 0) \<noteq> 0 \<and>
   chain (segments filled14) (head_segment (descriptors filled14 ! 0)) [0, 1] \<and>
   free_list_head (global_data filled14) = INVALID_INDEX \<and>
   (\<exists>m'. destroy_queue filled14 (Some 0) = Some (Inr m') \<and>
      in_use (descriptors m' ! 0) = 0 \<and>
      free_list_head (global_data m') = 1 \<and>
      chain (segments m') (free_list_head (global_data m')) [1, 0])"
proof -
  have a: "well_sized filled14" by code_simp
  have b: "(0::nat) < MAX_QUEUES" by (simp add: MAX_QUEUES_def)
  have c: "in_use (descriptors filled14 ! 0) \<noteq> 0"
    by (simp add: filled14_def zeroed_def MAX_QUEUES_def)
  have d: "chain (segments filled14) (head_segment (descriptors filled14 ! 0)) [0, 1]"
    by (simp add: filled14_def zeroed_def MAX_QUEUES_def SEGMENT_COUNT_eq)
  have e: "free_list_head (global_data filled14) = INVALID_INDEX"
    by (simp add: filled14_def)
  have f: "chain (segments filled14) (free_list_head (global_data filled14)) []"
    by (simp add: e)
  from destroy_queue_frees_chain [OF a b c d] obtain m'
    where 1: "destroy_queue filled14 (Some 0) = Some (Inr m')"
      and 2: "descriptors m' = (descriptors filled14)
                [0 := (descriptors filled14 ! 0)\<lparr>in_use := 0\<rparr>]"
      and 3: "free_list_head (global_data m') =
                last (free_list_head (global_data filled14) # [0, 1])"
      and 4: "\<forall>fl. chain (segments filled14) (free_list_head (global_data filled14)) fl \<and>
                set fl \<inter> set [0, 1] = {}
              \<longrightarrow> chain (segments m') (free_list_head (global_data m')) (rev [0, 1] @ fl)"
    by blast
  from 2 have 5: "in_use (descriptors m' ! 0) = 0"
    by (simp add: filled14_def zeroed_def MAX_QUEUES_def)
  from 3 have 6: "free_list_head (global_data m') = 1" by simp
  from 4 f have 7: "chain (segments m') (free_list_head (global_data m')) [1, 0]"
    by (metis Int_empty_left append_Nil2 empty_set rev.simps(1) rev.simps(2) append_Cons append_Nil)
  from a b c d e 1 5 6 7 show ?thesis by blast
qed

subsection \<open>First in, first out\<close>

lemma payload_Nil [simp]: "payload sgs [] = []"
  by (simp add: payload_def)

lemma payload_Cons [simp]: "payload sgs (c # cs) = data (sgs ! unat c) @ payload sgs cs"
  by (simp add: payload_def)

lemma payload_append [simp]: "payload sgs (as @ bs) = payload sgs as @ payload sgs bs"
  by (simp add: payload_def)

lemma payload_cong:
  "(\<And>c. c \<in> set cs \<Longrightarrow> data (sgs' ! unat c) = data (sgs ! unat c)) \<Longrightarrow>
   payload sgs' cs = payload sgs cs"
  by (induction cs) auto

lemma payload_length:
  assumes "\<forall>sg\<in>set sgs. length (data sg) = SEG_PAYLOAD_SIZE"
    and "\<forall>c\<in>set cs. unat c < length sgs"
  shows "length (payload sgs cs) = SEG_PAYLOAD_SIZE * length cs"
  using assms(2)
proof (induction cs)
  case Nil
  then show ?case by simp
next
  case (Cons c cs)
  then have "sgs ! unat c \<in> set sgs" by simp
  with assms(1) have "length (data (sgs ! unat c)) = SEG_PAYLOAD_SIZE" by blast
  with Cons show ?case by simp
qed

lemma payload_write:
  assumes sz: "\<forall>sg\<in>set sgs. length (data sg) = SEG_PAYLOAD_SIZE"
    and pool: "\<forall>c\<in>set (ys @ [t]). unat c < length sgs"
    and fresh: "t \<notin> set ys"
    and n: "n < SEG_PAYLOAD_SIZE"
  shows "take (SEG_PAYLOAD_SIZE * length ys + n + 1)
           (payload (sgs[unat t := (sgs ! unat t)\<lparr>data := (data (sgs ! unat t))[n := b]\<rparr>])
              (ys @ [t])) =
         take (SEG_PAYLOAD_SIZE * length ys + n) (payload sgs (ys @ [t])) @ [b]"
proof -
  let ?sgs' = "sgs[unat t := (sgs ! unat t)\<lparr>data := (data (sgs ! unat t))[n := b]\<rparr>]"
  let ?D = "data (sgs ! unat t)"
  from pool have t: "unat t < length sgs" by simp
  then have "sgs ! unat t \<in> set sgs" by simp
  with sz have lenD: "length ?D = SEG_PAYLOAD_SIZE" by blast
  have same: "payload ?sgs' ys = payload sgs ys"
  proof (rule payload_cong)
    fix c assume "c \<in> set ys"
    with fresh have "unat t \<noteq> unat c" by (auto simp: unat_eq_u16)
    then show "data (?sgs' ! unat c) = data (sgs ! unat c)" by simp
  qed
  from pool have "\<forall>c\<in>set ys. unat c < length sgs" by simp
  with sz have lenA: "length (payload sgs ys) = SEG_PAYLOAD_SIZE * length ys"
    by (rule payload_length)
  have "take (Suc n) (?D[n := b]) = take n ?D @ [b]"
    using n lenD by (simp add: take_Suc_conv_app_nth)
  with t same lenA show ?thesis by simp
qed

lemma chain_sentinel: "chain sgs INVALID_INDEX cs \<longleftrightarrow> cs = []"
  by (cases cs) (auto dest: in_pool_not_sentinel)

lemma chain_last_in_pool:
  assumes "chain sgs p cs" and "cs \<noteq> []"
  shows "unat (last cs) < SEGMENT_COUNT"
proof -
  from assms(2) have "last cs \<in> set cs" by simp
  with assms(1) show ?thesis by (rule chain_in_pool)
qed

lemma unat_u16_succ: "unat (x :: u16) < SEGMENT_COUNT \<Longrightarrow> unat (x + 1) = unat x + 1"
  by (simp add: unat_word_ariths SEGMENT_COUNT_eq)

lemma allocate_segment_owned:
  assumes own: "owned m S" and al: "allocate_segment m = Inr (x, m1)"
  shows "segments m1 = segments m \<and> descriptors m1 = descriptors m \<and>
         unat x < SEGMENT_COUNT \<and> x \<notin> S \<and> owned m1 (insert x S)"
proof (cases "initialized (global_data m) = 0")
  case True
  with own have S: "S = {}" by (auto simp: owned_def)
  from True al have "x = 0" and "m1 = m\<lparr>global_data := (global_data m)
      \<lparr>initialized := 1, free_list_head := INVALID_INDEX, next_unused := 0 + 1\<rparr>\<rparr>"
    by (auto simp: allocate_segment_def Let_def SEGMENT_COUNT_eq)
  then show ?thesis using S
    by (auto simp: owned_def SEGMENT_COUNT_eq chain_sentinel intro!: exI [of _ "[]"])
next
  case False
  let ?g = "global_data m"
  from own False obtain fl where below: "\<forall>c\<in>S. unat c < unat (next_unused ?g)"
    and fl: "chain (segments m) (free_list_head ?g) fl" and dj: "set fl \<inter> S = {}"
    and flb: "\<forall>c\<in>set fl. unat c < unat (next_unused ?g)"
    by (auto simp: owned_def)
  show ?thesis
  proof (cases "free_list_head ?g = INVALID_INDEX")
    case True
    with fl have nil: "fl = []" by (simp add: chain_sentinel)
    from True False al have lt: "unat (next_unused ?g) < SEGMENT_COUNT"
      and x: "x = next_unused ?g"
      and m1: "m1 = m\<lparr>global_data := ?g\<lparr>next_unused := next_unused ?g + 1\<rparr>\<rparr>"
      by (auto simp: allocate_segment_def Let_def on_out_of_memory_def split: if_splits)
    from below x have "x \<notin> S" by auto
    moreover have "owned m1 (insert x S)"
      using False True below lt x m1 by (auto simp: owned_def unat_u16_succ intro!: exI [of _ "[]"])
    ultimately show ?thesis using m1 lt x by simp
  next
    case ne: False
    with fl obtain fl' where cons: "fl = free_list_head ?g # fl'" by (cases fl) auto
    with fl have pool: "unat (free_list_head ?g) < SEGMENT_COUNT"
      and rest: "chain (segments m) (next_index (segments m ! unat (free_list_head ?g))) fl'"
      by simp_all
    from fl have "chain (segments m) (free_list_head ?g) (free_list_head ?g # fl')"
      by (simp only: cons)
    then have fresh: "free_list_head ?g \<notin> set fl'" by (rule chain_head_fresh)
    from ne False al pool have x: "x = free_list_head ?g"
      and m1: "m1 = m\<lparr>global_data := ?g\<lparr>free_list_head :=
          next_index (segments m ! unat (free_list_head ?g))\<rparr>\<rparr>"
      by (auto simp: allocate_segment_def Let_def and_then_Inr seg_Inr)
    from dj cons x have "x \<notin> S" by auto
    moreover have "owned m1 (insert x S)"
      unfolding owned_def
    proof (intro conjI impI)
      show "initialized (global_data m1) \<noteq> 0" using False m1 by simp
      show "\<forall>c\<in>insert x S. unat c < unat (next_unused (global_data m1))"
        using below flb cons x m1 by simp
      show "\<exists>fl. chain (segments m1) (free_list_head (global_data m1)) fl \<and>
              set fl \<inter> insert x S = {} \<and>
              (\<forall>c\<in>set fl. unat c < unat (next_unused (global_data m1)))"
        using rest fresh dj flb cons x m1 by (intro exI [of _ fl']) auto
    qed
    ultimately show ?thesis using m1 pool x by simp
  qed
qed

lemma owned_frame:
  assumes "owned m S" and "global_data m' = global_data m"
    and "\<And>c. c \<notin> S \<Longrightarrow> next_index (segments m' ! unat c) = next_index (segments m ! unat c)"
  shows "owned m' S"
proof -
  have "chain (segments m') p fl = chain (segments m) p fl" if "set fl \<inter> S = {}" for p fl
    using that assms(3) by (intro chain_cong) auto
  with assms(1,2) show ?thesis unfolding owned_def by metis
qed

lemma chain_snoc:
  assumes "chain sgs p (ys @ [t])" and "unat y < SEGMENT_COUNT"
    and "next_index (sgs' ! unat y) = INVALID_INDEX"
    and "next_index (sgs' ! unat t) = y"
    and "\<And>c. c \<in> set ys \<Longrightarrow> next_index (sgs' ! unat c) = next_index (sgs ! unat c)"
  shows "chain sgs' p (ys @ [t, y])"
  using assms(1,5)
proof (induction ys arbitrary: p)
  case Nil
  with assms(2-4) show ?case by simp
next
  case (Cons c ys)
  then show ?case by simp
qed

lemma well_sized_segment_store:
  assumes "well_sized m" and "length (data v) = SEG_PAYLOAD_SIZE"
    and "segments m' = (segments m)[j := v]" and "length (descriptors m') = length (descriptors m)"
  shows "well_sized m'"
proof -
  have "set ((segments m)[j := v]) \<subseteq> insert v (set (segments m))"
    by (rule set_update_subset_insert)
  with assms show ?thesis by (auto simp: well_sized_def)
qed

lemma well_sized_data:
  "well_sized m \<Longrightarrow> j < SEGMENT_COUNT \<Longrightarrow> length (data (segments m ! j)) = SEG_PAYLOAD_SIZE"
  by (simp add: well_sized_def)

lemma holds_facts:
  assumes "holds m i cs bs"
  shows "well_sized m" and "i < MAX_QUEUES" and "i < length (descriptors m)"
    and "in_use (descriptors m ! i) \<noteq> 0"
    and "chain (segments m) (head_segment (descriptors m ! i)) cs"
    and "tail_segment (descriptors m ! i) = last (INVALID_INDEX # cs)"
    and "owned m (set cs)"
    and "length (segments m) = SEGMENT_COUNT"
  using assms by (simp_all add: holds_def queue_view_def well_sized_def)

lemma view_facts:
  assumes "queue_view m i cs bs"
  shows "well_sized m" and "i < MAX_QUEUES" and "i < length (descriptors m)"
    and "in_use (descriptors m ! i) \<noteq> 0"
    and "chain (segments m) (head_segment (descriptors m ! i)) cs"
    and "tail_segment (descriptors m ! i) = last (INVALID_INDEX # cs)"
    and "owned m (set cs)"
    and "length (segments m) = SEGMENT_COUNT"
  using assms by (simp_all add: queue_view_def well_sized_def)

lemma enqueue_first_holds:
  assumes h: "holds m i cs bs" and f: "enqueue_first m i = Inr m1"
  shows "\<exists>cs1. cs1 \<noteq> [] \<and> holds m1 i cs1 bs"
proof (cases "cs = []")
  case True
  note hf = holds_facts [OF h]
  from h True have bs: "bs = []" by (simp add: holds_def queue_view_def)
  from hf(6) True have "tail_segment (descriptors m ! i) = INVALID_INDEX" by simp
  with f obtain x ma where al: "allocate_segment m = Inr (x, ma)"
    and x: "unat x < SEGMENT_COUNT"
    and m1: "m1 = q_update
        (ma\<lparr>segments := (segments ma)[unat x := (segments ma ! unat x)
            \<lparr>next_index := INVALID_INDEX\<rparr>]\<rparr>) i
        (\<lambda>d. d\<lparr>head_segment := x, tail_segment := x, head_offset := 0, tail_offset := 0\<rparr>)"
    by (auto simp: enqueue_first_def and_then_Inr set_next_Inr)
  from hf(7) True have "owned m {}" by simp
  from allocate_segment_owned [OF this al]
  have sg: "segments ma = segments m" and ds: "descriptors ma = descriptors m"
    and own: "owned ma {x}"
    by simp_all
  let ?v = "(segments m ! unat x)\<lparr>next_index := INVALID_INDEX\<rparr>"
  have seg1: "segments m1 = (segments m)[unat x := ?v]" using m1 sg by simp
  have des1: "descriptors m1 = (descriptors m)[i := (descriptors m ! i)
      \<lparr>head_segment := x, tail_segment := x, head_offset := 0, tail_offset := 0\<rparr>]"
    using m1 ds by simp
  have gl1: "global_data m1 = global_data ma" using m1 by simp
  have "length (data ?v) = SEG_PAYLOAD_SIZE" using hf(1) x by (simp add: well_sized_data)
  with hf(1) have ws: "well_sized m1"
    by (rule well_sized_segment_store) (simp_all add: seg1 des1)
  have own1: "owned m1 {x}"
  proof (rule owned_frame [OF own gl1])
    fix c assume "c \<notin> {x}"
    then have "unat x \<noteq> unat c" by (simp add: unat_eq_u16)
    then show "next_index (segments m1 ! unat c) = next_index (segments ma ! unat c)"
      by (simp add: seg1 sg)
  qed
  have "holds m1 i [x] bs"
    unfolding holds_def queue_view_def
    using ws hf(2,3,4,8) x own1 bs
    by (simp add: seg1 des1 SEG_PAYLOAD_SIZE_def)
  then show ?thesis by blast
next
  case False
  note hf = holds_facts [OF h]
  from hf(5) False have "unat (last cs) < SEGMENT_COUNT" by (rule chain_last_in_pool)
  then have "last cs \<noteq> INVALID_INDEX" by (rule in_pool_not_sentinel)
  with hf(6) False have "tail_segment (descriptors m ! i) \<noteq> INVALID_INDEX" by simp
  with f have "m1 = m" by (simp add: enqueue_first_def)
  with h False show ?thesis by blast
qed

lemma chain_pool_length:
  "chain sgs p cs \<Longrightarrow> length sgs = SEGMENT_COUNT \<Longrightarrow> \<forall>c\<in>set cs. unat c < length sgs"
  by (auto dest: chain_in_pool)

lemma enqueue_write_view:
  assumes h: "holds m i cs bs" and ne: "cs \<noteq> []" and w: "enqueue_write m i b = Inr m2"
  shows "queue_view m2 i cs (bs @ [b])"
proof -
  note hf = holds_facts [OF h]
  let ?d = "descriptors m ! i"
  let ?t = "last cs"
  let ?n = "unat (tail_offset ?d)"
  let ?D = "data (segments m ! unat ?t)"
  let ?v = "(segments m ! unat ?t)\<lparr>data := ?D[?n := b]\<rparr>"
  let ?k = "length cs - 1"
  from h ne have ho: "unat (head_offset ?d) < SEG_PAYLOAD_SIZE" and n: "?n < SEG_PAYLOAD_SIZE"
    and le: "unat (head_offset ?d) \<le> SEG_PAYLOAD_SIZE * ?k + ?n"
    and bs: "bs = drop (unat (head_offset ?d))
               (take (SEG_PAYLOAD_SIZE * ?k + ?n) (payload (segments m) cs))"
    by (simp_all add: holds_def queue_view_def)
  from hf(6) ne have tl: "tail_segment ?d = ?t" by simp
  from hf(5) ne have t: "unat ?t < SEGMENT_COUNT" by (rule chain_last_in_pool)
  from w tl have m2: "m2 = q_update (m\<lparr>segments := (segments m)[unat ?t := ?v]\<rparr>) i
      (\<lambda>d. d\<lparr>tail_offset := tail_offset ?d + 1\<rparr>)"
    by (auto simp: enqueue_write_def Let_def and_then_Inr set_data_Inr)
  have seg2: "segments m2 = (segments m)[unat ?t := ?v]" using m2 by simp
  have des2: "descriptors m2 = (descriptors m)[i := ?d\<lparr>tail_offset := tail_offset ?d + 1\<rparr>]"
    using m2 by simp
  have gl2: "global_data m2 = global_data m" using m2 by simp
  have nx: "next_index (segments m2 ! j) = next_index (segments m ! j)" for j
    using hf(8) t by (cases "j = unat ?t") (simp_all add: seg2)
  have "length (data ?v) = SEG_PAYLOAD_SIZE" using hf(1) t by (simp add: well_sized_data)
  with hf(1) have ws: "well_sized m2"
    by (rule well_sized_segment_store) (simp_all add: seg2 des2)
  have "chain (segments m2) (head_segment ?d) cs = chain (segments m) (head_segment ?d) cs"
    by (rule chain_cong) (rule nx)
  with hf(5) have ch: "chain (segments m2) (head_segment ?d) cs" by simp
  have own: "owned m2 (set cs)"
    using hf(7) gl2 nx by (rule owned_frame)
  have n1: "unat (tail_offset ?d + 1) = ?n + 1" using n by (rule unat_u8_succ)
  from ne have split: "cs = butlast cs @ [?t]" by simp
  from hf(5) have "distinct cs" by (rule chain_distinct)
  then have "distinct (butlast cs @ [?t])" by (simp only: split [symmetric])
  then have fresh: "?t \<notin> set (butlast cs)" by simp
  from hf(1) have sz: "\<forall>sg\<in>set (segments m). length (data sg) = SEG_PAYLOAD_SIZE"
    by (simp add: well_sized_def)
  from hf(5,8) have inpool: "\<forall>c\<in>set cs. unat c < length (segments m)"
    by (rule chain_pool_length)
  then have pool: "\<forall>c\<in>set (butlast cs @ [?t]). unat c < length (segments m)"
    by (simp only: split [symmetric])
  have lenk: "length (butlast cs) = ?k" by simp
  from payload_write [OF sz pool fresh n, of b]
  have "take (SEG_PAYLOAD_SIZE * ?k + ?n + 1) (payload (segments m2) (butlast cs @ [?t])) =
            take (SEG_PAYLOAD_SIZE * ?k + ?n) (payload (segments m) (butlast cs @ [?t])) @ [b]"
    by (simp only: lenk seg2)
  then have pw: "take (SEG_PAYLOAD_SIZE * ?k + ?n + 1) (payload (segments m2) cs) =
            take (SEG_PAYLOAD_SIZE * ?k + ?n) (payload (segments m) cs) @ [b]"
    by (simp only: split [symmetric])
  from sz inpool
  have lenP: "length (payload (segments m) cs) = SEG_PAYLOAD_SIZE * length cs"
    by (rule payload_length)
  from ne obtain k' where k': "length cs = Suc k'" by (cases cs) auto
  with n have "SEG_PAYLOAD_SIZE * ?k + ?n \<le> SEG_PAYLOAD_SIZE * length cs" by simp
  with lenP have "length (take (SEG_PAYLOAD_SIZE * ?k + ?n) (payload (segments m) cs)) =
      SEG_PAYLOAD_SIZE * ?k + ?n"
    by (simp add: min_def)
  with le bs pw have bytes: "bs @ [b] = drop (unat (head_offset ?d))
      (take (SEG_PAYLOAD_SIZE * ?k + (?n + 1)) (payload (segments m2) cs))"
    by (simp add: add.assoc)
  show ?thesis
    unfolding queue_view_def
    using ws hf(2,3,4) ch tl own ne ho n le bytes n1
    by (simp add: des2)
qed

lemma enqueue_grow_holds:
  assumes v: "queue_view m i cs xs" and ne: "cs \<noteq> []"
    and g: "enqueue_grow m i (last cs) = Inr m'"
  shows "\<exists>cs'. holds m' i cs' xs"
proof (cases "unat (tail_offset (descriptors m ! i)) = SEG_PAYLOAD_SIZE")
  case False
  with g have "m' = m" by (simp add: enqueue_grow_def)
  moreover from v ne False have "unat (tail_offset (descriptors m ! i)) < SEG_PAYLOAD_SIZE"
    by (simp add: queue_view_def)
  ultimately have "holds m' i cs xs" using v by (simp add: holds_def)
  then show ?thesis ..
next
  case True
  note vf = view_facts [OF v]
  let ?d = "descriptors m ! i"
  let ?t = "last cs"
  let ?k = "length cs - 1"
  from v ne True have ho: "unat (head_offset ?d) < SEG_PAYLOAD_SIZE"
    and xs: "xs = drop (unat (head_offset ?d))
               (take (SEG_PAYLOAD_SIZE * ?k + SEG_PAYLOAD_SIZE) (payload (segments m) cs))"
    by (simp_all add: queue_view_def)
  from vf(5) ne have t: "unat ?t < SEGMENT_COUNT" by (rule chain_last_in_pool)
  from True g t obtain y ma where al: "allocate_segment m = Inr (y, ma)"
    and yp: "unat y < SEGMENT_COUNT"
    and m': "m' = q_update
        (ma\<lparr>segments := ((segments ma)[unat y := (segments ma ! unat y)
              \<lparr>next_index := INVALID_INDEX\<rparr>])
            [unat ?t := ((segments ma)[unat y := (segments ma ! unat y)
              \<lparr>next_index := INVALID_INDEX\<rparr>] ! unat ?t)\<lparr>next_index := y\<rparr>]\<rparr>) i
        (\<lambda>d. d\<lparr>tail_segment := y, tail_offset := 0\<rparr>)"
    by (auto simp: enqueue_grow_def and_then_Inr set_next_Inr)
  from allocate_segment_owned [OF vf(7) al]
  have sg: "segments ma = segments m" and ds: "descriptors ma = descriptors m"
    and fresh: "y \<notin> set cs" and own: "owned ma (insert y (set cs))"
    by simp_all
  let ?s1 = "(segments m)[unat y := (segments m ! unat y)\<lparr>next_index := INVALID_INDEX\<rparr>]"
  let ?s2 = "?s1[unat ?t := (?s1 ! unat ?t)\<lparr>next_index := y\<rparr>]"
  have seg': "segments m' = ?s2" using m' sg by simp
  have des': "descriptors m' = (descriptors m)[i := ?d\<lparr>tail_segment := y, tail_offset := 0\<rparr>]"
    using m' ds by simp
  have gl': "global_data m' = global_data ma" using m' by simp
  from ne fresh have yt: "unat y \<noteq> unat ?t" by (auto simp: unat_eq_u16)
  have dat: "data (?s2 ! j) = data (segments m ! j)" for j
    using vf(8) t yp by (cases "j = unat ?t"; cases "j = unat y") simp_all
  have nxo: "next_index (?s2 ! j) = next_index (segments m ! j)"
    if "j \<noteq> unat ?t" and "j \<noteq> unat y" for j
    using that by simp
  have nxy: "next_index (?s2 ! unat y) = INVALID_INDEX"
    using vf(8) yp yt by simp
  have nxt: "next_index (?s2 ! unat ?t) = y"
    using vf(8) t by simp
  have "length (data ((segments m ! unat y)\<lparr>next_index := INVALID_INDEX\<rparr>)) = SEG_PAYLOAD_SIZE"
    using vf(1) yp by (simp add: well_sized_data)
  with vf(1) have ws1: "well_sized (m\<lparr>segments := ?s1\<rparr>)"
    by (rule well_sized_segment_store) simp_all
  from well_sized_data [OF ws1 t]
  have "length (data ((?s1 ! unat ?t)\<lparr>next_index := y\<rparr>)) = SEG_PAYLOAD_SIZE" by simp
  with ws1 have ws: "well_sized m'"
    by (rule well_sized_segment_store) (simp_all add: seg' des')
  from ne have split: "butlast cs @ [?t] = cs" by simp
  from vf(5) have "distinct cs" by (rule chain_distinct)
  then have "distinct (butlast cs @ [?t])" by (simp only: split)
  then have tfresh: "?t \<notin> set (butlast cs)" by simp
  have "chain ?s2 (head_segment ?d) (butlast cs @ [?t, y])"
  proof (rule chain_snoc [where sgs = "segments m"])
    show "chain (segments m) (head_segment ?d) (butlast cs @ [?t])"
      using vf(5) by (simp only: split)
    show "unat y < SEGMENT_COUNT" by (rule yp)
    show "next_index (?s2 ! unat y) = INVALID_INDEX" by (rule nxy)
    show "next_index (?s2 ! unat ?t) = y" by (rule nxt)
    fix c assume c: "c \<in> set (butlast cs)"
    with tfresh have "unat c \<noteq> unat ?t" by (auto simp: unat_eq_u16)
    moreover from c have "c \<in> set cs" by (rule in_set_butlastD)
    with fresh have "unat c \<noteq> unat y" by (auto simp: unat_eq_u16)
    ultimately show "next_index (?s2 ! unat c) = next_index (segments m ! unat c)"
      by (rule nxo)
  qed
  moreover have "butlast cs @ [?t, y] = cs @ [y]" using split by (metis append.assoc append_Cons append_Nil)
  ultimately have ch: "chain (segments m') (head_segment ?d) (cs @ [y])"
    by (simp only: seg')
  have own': "owned m' (set (cs @ [y]))"
  proof -
    have "owned m' (insert y (set cs))"
    proof (rule owned_frame [OF own gl'])
      fix c assume "c \<notin> insert y (set cs)"
      with ne have "unat c \<noteq> unat ?t" and "unat c \<noteq> unat y" by (auto simp: unat_eq_u16)
      then show "next_index (segments m' ! unat c) = next_index (segments ma ! unat c)"
        unfolding seg' sg by (rule nxo)
    qed
    then show ?thesis by simp
  qed
  from vf(1) have sz: "\<forall>sg\<in>set (segments m). length (data sg) = SEG_PAYLOAD_SIZE"
    by (simp add: well_sized_def)
  from vf(5,8) have inpool: "\<forall>c\<in>set cs. unat c < length (segments m)"
    by (rule chain_pool_length)
  from sz inpool
  have lenP: "length (payload (segments m) cs) = SEG_PAYLOAD_SIZE * length cs"
    by (rule payload_length)
  have same: "payload (segments m') cs = payload (segments m) cs"
    unfolding seg' by (rule payload_cong) (rule dat)
  from ne obtain k' where k': "length cs = Suc k'" by (cases cs) auto
  then have full: "SEG_PAYLOAD_SIZE * ?k + SEG_PAYLOAD_SIZE = SEG_PAYLOAD_SIZE * length cs" by simp
  have bytes: "xs = drop (unat (head_offset ?d))
      (take (SEG_PAYLOAD_SIZE * length cs) (payload (segments m') (cs @ [y])))"
  proof -
    from xs have "xs = drop (unat (head_offset ?d))
        (take (SEG_PAYLOAD_SIZE * length cs) (payload (segments m) cs))"
      by (simp only: full)
    with lenP show ?thesis by (simp add: same)
  qed
  have le: "unat (head_offset ?d) \<le> SEG_PAYLOAD_SIZE * length cs"
    using ho k' by simp
  have "holds m' i (cs @ [y]) xs"
    unfolding holds_def queue_view_def
    using ws vf(2,3,4) ch own' ho le bytes
    by (simp add: des' SEG_PAYLOAD_SIZE_def)
  then show ?thesis ..
qed

lemma enqueue_byte_holds:
  assumes h: "holds m i cs bs" and e: "enqueue_byte m (Some i) b = Inr m'"
  shows "\<exists>cs'. holds m' i cs' (bs @ [b])"
proof -
  from e obtain m1 m2 where f: "enqueue_first m i = Inr m1"
    and w: "enqueue_write m1 i b = Inr m2"
    and g: "enqueue_grow m2 i (tail_segment (descriptors m1 ! i)) = Inr m'"
    by (auto simp: enqueue_byte_def on_illegal_operation_def and_then_Inr split: if_splits)
  from enqueue_first_holds [OF h f] obtain cs1 where ne: "cs1 \<noteq> []"
    and h1: "holds m1 i cs1 bs"
    by blast
  from h1 ne w have v2: "queue_view m2 i cs1 (bs @ [b])" by (rule enqueue_write_view)
  from holds_facts(6) [OF h1] ne have "tail_segment (descriptors m1 ! i) = last cs1" by simp
  with g have "enqueue_grow m2 i (last cs1) = Inr m'" by simp
  with v2 ne show ?thesis by (rule enqueue_grow_holds)
qed

lemma enqueue_bytes_holds:
  "holds m i cs xs \<Longrightarrow> enqueue_bytes m (Some i) bs = Inr m' \<Longrightarrow>
   \<exists>cs'. holds m' i cs' (xs @ bs)"
proof (induction bs arbitrary: m cs xs)
  case Nil
  then show ?case by auto
next
  case (Cons b bs)
  from Cons.prems(2) obtain m1 where e: "enqueue_byte m (Some i) b = Inr m1"
    and r: "enqueue_bytes m1 (Some i) bs = Inr m'"
    by (auto simp: and_then_Inr)
  from enqueue_byte_holds [OF Cons.prems(1) e] obtain cs1 where "holds m1 i cs1 (xs @ [b])"
    by blast
  from Cons.IH [OF this r] show ?case by simp
qed

lemma free_segment_owned:
  assumes own: "owned m (insert c S)" and fresh: "c \<notin> S" and c: "unat c < SEGMENT_COUNT"
    and len: "length (segments m) = SEGMENT_COUNT"
    and sg: "segments m' = (segments m)[unat c := (segments m ! unat c)
               \<lparr>next_index := free_list_head (global_data m)\<rparr>]"
    and gl: "global_data m' = (global_data m)\<lparr>free_list_head := c\<rparr>"
  shows "owned m' S"
proof -
  let ?g = "global_data m"
  from own have ini: "initialized ?g \<noteq> 0" by (simp add: owned_def)
  with own obtain fl where below: "\<forall>x\<in>insert c S. unat x < unat (next_unused ?g)"
    and fl: "chain (segments m) (free_list_head ?g) fl" and dj: "set fl \<inter> insert c S = {}"
    and flb: "\<forall>x\<in>set fl. unat x < unat (next_unused ?g)"
    by (auto simp: owned_def)
  from dj have "c \<notin> set fl" by auto
  with fl have "chain (segments m') (free_list_head ?g) fl" by (simp add: sg chain_update_other)
  with c len have "chain (segments m') (free_list_head (global_data m')) (c # fl)"
    by (simp add: sg gl)
  moreover from dj fresh have "set (c # fl) \<inter> S = {}" by auto
  moreover from below flb have "\<forall>x\<in>set (c # fl). unat x < unat (next_unused (global_data m'))"
    by (simp add: gl)
  ultimately have "\<exists>fl'. chain (segments m') (free_list_head (global_data m')) fl' \<and>
      set fl' \<inter> S = {} \<and> (\<forall>x\<in>set fl'. unat x < unat (next_unused (global_data m')))"
    by blast
  with ini below show ?thesis by (simp add: owned_def gl)
qed

lemma dequeue_byte_holds:
  assumes h: "holds m i cs (x # xs)"
  shows "\<exists>m' cs'. dequeue_byte m (Some i) = Inr (x, m') \<and> holds m' i cs' xs"
proof -
  note hf = holds_facts [OF h]
  let ?d = "descriptors m ! i"
  let ?ho = "unat (head_offset ?d)"
  let ?to = "unat (tail_offset ?d)"
  let ?F = "free_list_head (global_data m)"
  from h have ne: "cs \<noteq> []" by (auto simp: holds_def queue_view_def)
  then obtain c rest where cs: "cs = c # rest" by (cases cs) auto
  let ?D = "data (segments m ! unat c)"
  let ?N = "SEG_PAYLOAD_SIZE * length rest + ?to"
  define L where "L = take ?N (?D @ payload (segments m) rest)"
  from h cs have ho: "?ho < SEG_PAYLOAD_SIZE" and to: "?to < SEG_PAYLOAD_SIZE"
    and le: "?ho \<le> ?N" and bytes: "x # xs = drop ?ho L"
    by (simp_all add: holds_def queue_view_def L_def)
  from hf(5) cs have hd: "head_segment ?d = c" and c: "unat c < SEGMENT_COUNT"
    and rch: "chain (segments m) (next_index (segments m ! unat c)) rest"
    by simp_all
  from hf(5) cs have fresh: "c \<notin> set rest" by (auto dest: chain_head_fresh simp del: chain.simps)
  from hf(6) cs have tl: "tail_segment ?d = last (c # rest)" by simp
  from c have cne: "c \<noteq> INVALID_INDEX" by (rule in_pool_not_sentinel)
  from hf(1) c have lenD: "length ?D = SEG_PAYLOAD_SIZE" by (rule well_sized_data)
  from hf(1) have sz: "\<forall>sg\<in>set (segments m). length (data sg) = SEG_PAYLOAD_SIZE"
    by (simp add: well_sized_def)
  from rch hf(8) have "\<forall>c\<in>set rest. unat c < length (segments m)" by (rule chain_pool_length)
  with sz have lenR: "length (payload (segments m) rest) = SEG_PAYLOAD_SIZE * length rest"
    by (rule payload_length)
  have tot: "length (?D @ payload (segments m) rest) =
      SEG_PAYLOAD_SIZE + SEG_PAYLOAD_SIZE * length rest"
    using lenD lenR by simp
  have lenL: "length L = ?N" unfolding L_def length_take tot using to by simp
  from bytes have "length (drop ?ho L) = Suc (length xs)" by (metis length_Cons)
  with lenL have lt: "?ho < ?N" by simp
  from bytes have "x = hd (drop ?ho L)" by (metis list.sel(1))
  also from lt lenL have "\<dots> = L ! ?ho" by (simp add: hd_drop_conv_nth)
  also from lt have "\<dots> = (?D @ payload (segments m) rest) ! ?ho"
    unfolding L_def by (rule nth_take)
  also from ho lenD have "\<dots> = ?D ! ?ho" by (simp add: nth_append)
  finally have x: "x = ?D ! ?ho" .
  from bytes have "xs = tl (drop ?ho L)" by (metis list.sel(3))
  then have xs: "xs = drop (Suc ?ho) L" by (simp add: drop_Suc tl_drop)
  have ho1: "unat (head_offset ?d + 1) = Suc ?ho" using ho by (simp add: unat_u8_succ)
  let ?m0 = "q_update m i (\<lambda>d. d\<lparr>head_offset := head_offset d + 1\<rparr>)"
  have rd: "get_data m c (head_offset ?d) = Inr x"
    using c ho x by (simp add: get_data_Inr)
  have deq: "dequeue_byte m (Some i) = and_then (dequeue_settle ?m0 i c) (\<lambda>m1. Inr (x, m1))"
    using hf(2,4) hd cne rd by (simp add: dequeue_byte_def Let_def and_then_def)
  have d0: "descriptors ?m0 ! i = ?d\<lparr>head_offset := head_offset ?d + 1\<rparr>"
    using hf(3) by simp
  have "\<exists>m' cs'. dequeue_settle ?m0 i c = Inr m' \<and> holds m' i cs' xs"
  proof (cases "rest = []")
    case True
    with le lt have hlt: "?ho < ?to" by simp
    from True tl hd have same: "head_segment ?d = tail_segment ?d" by simp
    show ?thesis
    proof (cases "head_offset ?d + 1 = tail_offset ?d")
      case last: True
      let ?m' = "q_update
          (?m0\<lparr>segments := (segments m)[unat c := (segments m ! unat c)\<lparr>next_index := ?F\<rparr>],
                global_data := (global_data m)\<lparr>free_list_head := c\<rparr>\<rparr>) i
          (\<lambda>d. d\<lparr>head_segment := INVALID_INDEX, tail_segment := INVALID_INDEX,
                 head_offset := 0, tail_offset := 0\<rparr>)"
      have st: "dequeue_settle ?m0 i c = Inr ?m'"
        using same last hd c d0
        by (simp add: dequeue_settle_def Let_def and_then_def free_segment_def set_next_def seg_def)
      from last have "Suc ?ho = ?to" using ho1 by simp
      with xs lenL True have xs0: "xs = []" by simp
      have "length (data ((segments m ! unat c)\<lparr>next_index := ?F\<rparr>)) = SEG_PAYLOAD_SIZE"
        using lenD by simp
      with hf(1) have ws: "well_sized ?m'"
        by (rule well_sized_segment_store) simp_all
      from hf(7) cs True have "owned m (insert c {})" by simp
      then have own: "owned ?m' {}"
        by (rule free_segment_owned) (simp_all add: c hf(8))
      have "holds ?m' i [] xs"
        unfolding holds_def queue_view_def
        using ws hf(2,3,4) own xs0 by simp
      with st show ?thesis by blast
    next
      case more: False
      from more have "Suc ?ho \<noteq> ?to" using ho1 by (metis word_unat_eq_iff)
      with hlt have hlt': "Suc ?ho \<le> ?to" by simp
      with to have n14: "Suc ?ho \<noteq> SEG_PAYLOAD_SIZE" by simp
      have st: "dequeue_settle ?m0 i c = Inr ?m0"
        using more n14 ho1 d0 by (simp add: dequeue_settle_def Let_def)
      have ws: "well_sized ?m0" using hf(1) by (simp add: well_sized_def)
      have own: "owned ?m0 (set cs)" using hf(7) by (rule owned_frame) simp_all
      have "holds ?m0 i cs xs"
        unfolding holds_def queue_view_def
        using ws hf(2,3,4,5,6) own ne to hlt' n14 hlt xs cs True ho1 ho
        by (simp add: L_def)
      with st show ?thesis by blast
    qed
  next
    case False
    then obtain r' where r': "length rest = Suc r'" by (cases rest) auto
    from False have "last (c # rest) \<in> set rest" by simp
    with fresh have "last (c # rest) \<noteq> c" by metis
    with tl hd have diff: "head_segment ?d \<noteq> tail_segment ?d" by simp
    show ?thesis
    proof (cases "Suc ?ho = SEG_PAYLOAD_SIZE")
      case True
      let ?nx = "next_index (segments m ! unat c)"
      let ?m' = "(q_update ?m0 i (\<lambda>d. d\<lparr>head_segment := ?nx, head_offset := 0\<rparr>))
          \<lparr>segments := (segments m)[unat c := (segments m ! unat c)\<lparr>next_index := ?F\<rparr>],
           global_data := (global_data m)\<lparr>free_list_head := c\<rparr>\<rparr>"
      have st: "dequeue_settle ?m0 i c = Inr ?m'"
        using diff True hd c d0 ho1
        by (simp add: dequeue_settle_def Let_def and_then_def free_segment_def set_next_def
            seg_def q_update_def)
      have "length (data ((segments m ! unat c)\<lparr>next_index := ?F\<rparr>)) = SEG_PAYLOAD_SIZE"
        using lenD by simp
      with hf(1) have ws: "well_sized ?m'"
        by (rule well_sized_segment_store) simp_all
      from hf(7) cs have "owned m (insert c (set rest))" by simp
      then have own: "owned ?m' (set rest)"
        using fresh by (rule free_segment_owned) (simp_all add: c hf(8))
      have ch: "chain (segments ?m') ?nx rest"
        using rch fresh by (simp add: chain_update_other)
      have dat: "payload (segments ?m') rest = payload (segments m) rest"
      proof (rule payload_cong)
        fix a assume "a \<in> set rest"
        with fresh have "unat c \<noteq> unat a" by (auto simp: unat_eq_u16)
        then show "data (segments ?m' ! unat a) = data (segments m ! unat a)" by simp
      qed
      from xs True lenD r' have "xs = take (SEG_PAYLOAD_SIZE * r' + ?to) (payload (segments m) rest)"
        by (simp add: L_def)
      with dat r' have bytes': "xs = drop 0 (take (SEG_PAYLOAD_SIZE * (length rest - 1) + ?to)
          (payload (segments ?m') rest))"
        by simp
      have "holds ?m' i rest xs"
        unfolding holds_def queue_view_def
        using ws hf(2,3,4) own False to tl ch bytes'
        by (simp add: SEG_PAYLOAD_SIZE_def)
      with st show ?thesis by blast
    next
      case n14: False
      have st: "dequeue_settle ?m0 i c = Inr ?m0"
        using diff n14 ho1 d0 by (simp add: dequeue_settle_def Let_def)
      have ws: "well_sized ?m0" using hf(1) by (simp add: well_sized_def)
      have own: "owned ?m0 (set cs)" using hf(7) by (rule owned_frame) simp_all
      from ho n14 have h14: "Suc ?ho < SEG_PAYLOAD_SIZE" by simp
      with r' have le': "Suc ?ho \<le> ?N" by simp
      have "holds ?m0 i cs xs"
        unfolding holds_def queue_view_def
        using ws hf(2,3,4,5,6) own ne to h14 le' xs cs ho1
        by (simp add: L_def)
      with st show ?thesis by blast
    qed
  qed
  with deq show ?thesis by (auto simp: and_then_def)
qed

lemma dequeue_bytes_holds:
  "holds m i cs (xs @ ys) \<Longrightarrow>
   \<exists>m' cs'. dequeue_bytes m (Some i) (length xs) = Inr (xs, m') \<and> holds m' i cs' ys"
proof (induction xs arbitrary: m cs)
  case Nil
  then show ?case by auto
next
  case (Cons x xs)
  then have "holds m i cs (x # (xs @ ys))" by simp
  from dequeue_byte_holds [OF this] obtain m1 cs1
    where d: "dequeue_byte m (Some i) = Inr (x, m1)" and h1: "holds m1 i cs1 (xs @ ys)"
    by blast
  from Cons.IH [OF h1] obtain m' cs'
    where r: "dequeue_bytes m1 (Some i) (length xs) = Inr (xs, m')" and h': "holds m' i cs' ys"
    by blast
  from d r have "dequeue_bytes m (Some i) (length (x # xs)) = Inr (x # xs, m')"
    by (simp add: and_then_def)
  with h' show ?case by blast
qed

lemma empty_queue_holds:
  assumes "well_sized m" and "i < MAX_QUEUES" and "in_use (descriptors m ! i) \<noteq> 0"
    and "head_segment (descriptors m ! i) = INVALID_INDEX"
    and "tail_segment (descriptors m ! i) = INVALID_INDEX"
    and "owned m {}"
  shows "holds m i [] []"
  using assms by (simp add: holds_def queue_view_def)

text \<open>
  X3: bytes \<open>bs\<close> enqueued in order into an empty queue (head and tail at the sentinel),
  with no other call in between and no fault, come back from \<open>length bs\<close> successive
  \<open>dequeue_byte\<close> calls, every call returning, exactly as \<open>bs\<close> in that order. The
  allocator is assumed intact (\<open>owned m {}\<close>).
\<close>

theorem fifo_order:
  assumes "well_sized m" and "i < MAX_QUEUES" and "in_use (descriptors m ! i) \<noteq> 0"
    and "head_segment (descriptors m ! i) = INVALID_INDEX"
    and "tail_segment (descriptors m ! i) = INVALID_INDEX"
    and "owned m {}"
    and "enqueue_bytes m (Some i) bs = Inr m'"
  shows "\<exists>m''. dequeue_bytes m' (Some i) (length bs) = Inr (bs, m'')"
proof -
  from assms(1-6) have "holds m i [] []" by (rule empty_queue_holds)
  from enqueue_bytes_holds [OF this assms(7)] obtain cs' where "holds m' i cs' (bs @ [])"
    by auto
  from dequeue_bytes_holds [OF this] show ?thesis by blast
qed

theorem fifo_order_witness:
  "well_sized one_queue \<and> (0::nat) < MAX_QUEUES \<and> in_use (descriptors one_queue ! 0) \<noteq> 0 \<and>
   head_segment (descriptors one_queue ! 0) = INVALID_INDEX \<and>
   tail_segment (descriptors one_queue ! 0) = INVALID_INDEX \<and>
   owned one_queue {} \<and>
   enqueue_bytes one_queue (Some 0) bytes14 = Inr filled14 \<and>
   (\<exists>m''. dequeue_bytes filled14 (Some 0) (length bytes14) = Inr (bytes14, m''))"
proof -
  have a: "(0::nat) < MAX_QUEUES" by (simp add: MAX_QUEUES_def)
  have b: "in_use (descriptors one_queue ! 0) \<noteq> 0"
    and c: "head_segment (descriptors one_queue ! 0) = INVALID_INDEX"
    and d: "tail_segment (descriptors one_queue ! 0) = INVALID_INDEX"
    by (simp_all add: one_queue_def q_update_def zeroed_def MAX_QUEUES_def)
  have e: "owned one_queue {}"
    by (simp add: owned_def one_queue_def q_update_def zeroed_def)
  from fifo_order [OF well_sized_one_queue a b c d e run_fill]
  show ?thesis using well_sized_one_queue a b c d e run_fill by blast
qed

lemma run_15: "enqueue_bytes filled14 (Some 0) [15] = Inr filled15"
  by code_simp

lemma holds_filled14: "holds filled14 0 [0, 1] bytes14"
proof -
  have ws: "well_sized filled14" by code_simp
  have d: "descriptors filled14 ! 0 =
     \<lparr>head_segment = 0, tail_segment = 1, head_offset = 0, tail_offset = 0, in_use = 1, pad = 0\<rparr>"
    by (simp add: filled14_def zeroed_def MAX_QUEUES_def)
  have s0: "segments filled14 ! 0 = \<lparr>next_index = 1, data = bytes14\<rparr>"
    and s1: "segments filled14 ! Suc 0 =
      \<lparr>next_index = INVALID_INDEX, data = replicate SEG_PAYLOAD_SIZE 0\<rparr>"
    by (simp_all add: filled14_def zeroed_def SEGMENT_COUNT_eq)
  have g: "global_data filled14 =
      \<lparr>free_list_head = INVALID_INDEX, next_unused = 2, initialized = 1\<rparr>"
    by (simp add: filled14_def)
  have own: "owned filled14 {0, 1}"
    unfolding owned_def by (auto simp: g intro!: exI [of _ "[]"])
  show ?thesis
    unfolding holds_def queue_view_def
    using ws own
    by (simp add: d s0 s1 SEGMENT_COUNT_eq MAX_QUEUES_def SEG_PAYLOAD_SIZE_def bytes14_def)
qed

text \<open>
  X1: the same for a queue that already holds bytes. If queue \<open>i\<close> holds \<open>xs\<close> and
  \<open>bs\<close> are enqueued without a fault, then \<open>length xs + length bs\<close> dequeues all
  return, and they return \<open>xs\<close> followed by \<open>bs\<close>.
\<close>

theorem fifo_order_any_contents:
  assumes "holds m i cs xs" and "enqueue_bytes m (Some i) bs = Inr m'"
  shows "\<exists>m''. dequeue_bytes m' (Some i) (length xs + length bs) = Inr (xs @ bs, m'')"
proof -
  from enqueue_bytes_holds [OF assms] obtain cs' where "holds m' i cs' ((xs @ bs) @ [])"
    by auto
  from dequeue_bytes_holds [OF this] show ?thesis by auto
qed

theorem fifo_order_any_contents_witness:
  "holds filled14 0 [0, 1] bytes14 \<and>
   enqueue_bytes filled14 (Some 0) [15] = Inr filled15 \<and>
   (\<exists>m''. dequeue_bytes filled15 (Some 0) (length bytes14 + length [15 :: u8]) =
      Inr (bytes14 @ [15], m''))"
  using fifo_order_any_contents [OF holds_filled14 run_15] holds_filled14 run_15 by blast

lemma allocate_segment_owned_fault:
  assumes "owned m S" and "allocate_segment m = Inl e"
  shows "e = OutOfMemory"
proof (cases "initialized (global_data m) \<noteq> 0 \<and> free_list_head (global_data m) \<noteq> INVALID_INDEX")
  case True
  with assms(1) obtain fl where "chain (segments m) (free_list_head (global_data m)) fl"
    by (auto simp: owned_def)
  with True have "unat (free_list_head (global_data m)) < SEGMENT_COUNT"
    by (cases fl) auto
  with True assms(2) show ?thesis
    by (simp add: allocate_segment_def Let_def and_then_def seg_def)
next
  case False
  with assms(2) show ?thesis
    by (auto simp: allocate_segment_def Let_def on_out_of_memory_def SEGMENT_COUNT_eq
        split: if_splits)
qed

lemma set_data_Inl:
  "set_data m idx off b = Inl e \<Longrightarrow> \<not> (unat idx < SEGMENT_COUNT \<and> unat off < SEG_PAYLOAD_SIZE)"
  by (auto simp: set_data_def and_then_def seg_def split: if_splits)

text \<open>
  X4: on a queue that holds bytes in this sense, \<open>enqueue_byte\<close> either returns or ends
  in the out-of-memory fault; no other fault is possible.
\<close>

theorem enqueue_faults_only_out_of_memory:
  assumes h: "holds m i cs xs" and e: "enqueue_byte m (Some i) b = Inl e"
  shows "e = OutOfMemory"
proof -
  note hf = holds_facts [OF h]
  from e hf(2,4) have e': "and_then (enqueue_first m i) (\<lambda>m1.
      and_then (enqueue_write m1 i b) (\<lambda>m2.
        enqueue_grow m2 i (tail_segment (descriptors m1 ! i)))) = Inl e"
    by (simp add: enqueue_byte_def)
  show ?thesis
  proof (cases "enqueue_first m i")
    case (Inl e1)
    with e' have e1: "e1 = e" by (simp add: and_then_def)
    from Inl have tail: "tail_segment (descriptors m ! i) = INVALID_INDEX"
      by (auto simp: enqueue_first_def split: if_splits)
    show ?thesis
    proof (cases "allocate_segment m")
      case (Inl e2)
      with \<open>enqueue_first m i = Inl e1\<close> tail e1 have "e2 = e"
        by (simp add: enqueue_first_def and_then_def)
      with allocate_segment_owned_fault [OF hf(7) Inl] show ?thesis by simp
    next
      case (Inr p)
      obtain x ma where p: "p = (x, ma)" by (cases p)
      from allocate_segment_owned [OF hf(7) Inr [unfolded p]]
      have "unat x < SEGMENT_COUNT" by simp
      with Inr p tail \<open>enqueue_first m i = Inl e1\<close> show ?thesis
        by (simp add: enqueue_first_def and_then_def set_next_def seg_def)
    qed
  next
    case (Inr m1)
    from enqueue_first_holds [OF h Inr] obtain cs1 where ne: "cs1 \<noteq> []"
      and h1: "holds m1 i cs1 xs"
      by blast
    note hf1 = holds_facts [OF h1]
    from hf1(5) ne have t: "unat (last cs1) < SEGMENT_COUNT" by (rule chain_last_in_pool)
    from hf1(6) ne have tl: "tail_segment (descriptors m1 ! i) = last cs1" by simp
    from h1 ne have to: "unat (tail_offset (descriptors m1 ! i)) < SEG_PAYLOAD_SIZE"
      by (simp add: holds_def)
    show ?thesis
    proof (cases "enqueue_write m1 i b")
      case (Inl e2)
      then have "set_data m1 (last cs1) (tail_offset (descriptors m1 ! i)) b = Inl e2"
        by (auto simp: enqueue_write_def Let_def and_then_Inl tl)
      with t to show ?thesis by (auto dest: set_data_Inl)
    next
      case m2: (Inr m2)
      from h1 ne m2 have v2: "queue_view m2 i cs1 (xs @ [b])" by (rule enqueue_write_view)
      note vf = view_facts [OF v2]
      from e' Inr m2 tl have g: "enqueue_grow m2 i (last cs1) = Inl e"
        by (simp add: and_then_def)
      then have full: "unat (tail_offset (descriptors m2 ! i)) = SEG_PAYLOAD_SIZE"
        by (auto simp: enqueue_grow_def split: if_splits)
      show ?thesis
      proof (cases "allocate_segment m2")
        case (Inl e3)
        with g full have "e3 = e" by (simp add: enqueue_grow_def and_then_def)
        with allocate_segment_owned_fault [OF vf(7) Inl] show ?thesis by simp
      next
        case (Inr p)
        obtain y ma where p: "p = (y, ma)" by (cases p)
        from allocate_segment_owned [OF vf(7) Inr [unfolded p]]
        have "unat y < SEGMENT_COUNT" by simp
        with Inr p full g t show ?thesis
          by (simp add: enqueue_grow_def and_then_def set_next_def seg_def)
      qed
    qed
  qed
qed

theorem enqueue_faults_only_out_of_memory_witness:
  "holds filled14 0 [0, 1] bytes14 \<and> enqueue_byte filled14 (Some 0) 15 \<noteq> Inl IllegalOperation"
proof -
  have "enqueue_byte filled14 (Some 0) 15 \<noteq> Inl IllegalOperation"
    using enqueue_faults_only_out_of_memory [OF holds_filled14, of 15 IllegalOperation]
    by auto
  with holds_filled14 show ?thesis by blast
qed

subsection \<open>A stale tail after draining at a segment boundary\<close>

lemma run_over: "dequeue_bytes drained14 (Some 0) 14 = Inr (replicate 14 0, stale14)"
  by code_simp

lemma run_stale: "map_option fst (returned stale_tail_run) = Some 60"
  by code_simp

text \<open>
  C1, evaluated where it fails. From process start: create a queue, enqueue 14 bytes,
  dequeue them (\<open>drained14\<close>), and call \<open>dequeue_byte\<close> 14 more times; none of these
  calls faults, and the queue is left with its head at the sentinel and its tail at
  segment 1, which is on the free list (\<open>stale14\<close>). A second queue is created and 50 is
  enqueued into it: it gets segment 1. Then 60 is enqueued into the first queue, which
  writes through its stale tail into the same segment. The one \<open>dequeue_byte\<close> on the
  second queue returns 60, not the 50 that was enqueued into it.
\<close>

theorem fifo_broken_by_stale_tail:
  "create_queue zeroed = Inr (Some 0, one_queue) \<and>
   enqueue_bytes one_queue (Some 0) bytes14 = Inr filled14 \<and>
   dequeue_bytes filled14 (Some 0) 14 = Inr (bytes14, drained14) \<and>
   dequeue_bytes drained14 (Some 0) 14 = Inr (replicate 14 0, stale14) \<and>
   map_option fst (returned stale_tail_run) = Some 60"
  using run_create run_fill run_14 run_over run_stale by blast

subsection \<open>The run of main\<close>

declare destroy_walk.simps [code]

text \<open>
  X2: the calls of \<open>main\<close> all return, and the bytes dequeued are 0, 1 and 2, 5 from the
  first queue and 3, 4, 6 from the second, which is what \<open>main\<close> prints.
\<close>

theorem main_prints:
  "map_option (map_sum id fst) main_run = Some (Inr [0, 1, 2, 5, 3, 4, 6])"
  by code_simp

end
